theory Spec2Isabelle
  imports Complex_Main "HOL-Library.Sublist" "HOL-Library.Multiset"
begin

section \<open>JavaScript values\<close>

text \<open>
  A JavaScript string is a sequence of UTF-16 code units; \<open>===\<close>, \<open>includes\<close> and
  \<open>trim\<close> all work on code units. ASCII literals of the source are written
  \<open>lit ''...''\<close>.
\<close>

type_synonym jsstring = "nat list"

definition lit :: "string \<Rightarrow> jsstring" where
  "lit s = map of_char s"

text \<open>
  A JavaScript number is an IEEE-754 binary64 value: a finite double, one of the two
  infinities, or NaN. \<open>Num x\<close> is the finite double of value \<open>x\<close>; the numbers that the
  operations below produce are doubles, and \<open>Num\<close> of any other real stands for no value
  of the program. The sign of a zero is not kept: \<open>Num 0\<close> stands for \<open>+0\<close> and \<open>-0\<close>.
  The program cannot tell them apart: \<open>===\<close>, the sign tests of the sort, \<open>toFixed\<close>
  and \<open>JSON.stringify\<close> treat both alike, and the one divisor of the program is a
  product of two square roots, which is never \<open>-0\<close>.
\<close>

datatype jsnum = Num real | PosInf | NegInf | NaN

datatype jsval =
    JUndefined
  | JNull
  | JBool bool
  | JNum jsnum
  | JStr jsstring
  | JArr "jsval list"
  | JObj "(jsstring \<times> jsval) list"

text \<open>\<open>k in o\<close> is \<open>map_of o k \<noteq> None\<close>; \<open>o.k\<close> is \<open>map_of o k\<close>, with \<open>None\<close> for
  \<open>undefined\<close>.\<close>

subsection \<open>Rounding\<close>

text \<open>
  Every arithmetic operation returns the exact result rounded to the nearest double, ties
  to the even significand. \<open>round_even\<close> rounds a real to the nearest integer, ties to
  even. \<open>quantum x\<close> is the spacing of the doubles around \<open>x\<close>: \<open>2 ^ (e - 52)\<close> in the
  binade \<open>2 ^ e \<le> |x| < 2 ^ (e + 1)\<close>, and \<open>2 ^ -1074\<close> in the subnormal range.
  \<open>rounded x\<close> is the multiple of the spacing nearest to \<open>x\<close>, and \<open>fl x\<close> is the
  double that the exact result \<open>x\<close> is rounded to: a rounded magnitude of
  \<open>2 ^ 1024\<close> or more overflows to an infinity, and a magnitude of at most \<open>2 ^ -1075\<close>
  underflows to zero. A decimal literal of the source denotes \<open>fl\<close> of its value.
\<close>

definition round_even :: "real \<Rightarrow> int" where
  "round_even y =
     (let f = \<lfloor>y\<rfloor>; d = y - of_int f in
      if d < 1/2 then f else if 1/2 < d then f + 1 else if even f then f else f + 1)"

definition quantum :: "real \<Rightarrow> real" where
  "quantum x = 2 powi (max (\<lfloor>log 2 \<bar>x\<bar>\<rfloor> - 52) (- 1074))"

definition rounded :: "real \<Rightarrow> real" where
  "rounded x = of_int (round_even (x / quantum x)) * quantum x"

definition fl :: "real \<Rightarrow> jsnum" where
  "fl x =
     (if x = 0 then Num 0
      else if 2 ^ 1024 \<le> \<bar>rounded x\<bar> then (if 0 < x then PosInf else NegInf)
      else Num (rounded x))"

subsection \<open>Number operations\<close>

fun nneg :: "jsnum \<Rightarrow> jsnum" where
  "nneg (Num x) = Num (- x)"
| "nneg PosInf = NegInf"
| "nneg NegInf = PosInf"
| "nneg NaN = NaN"

fun nadd :: "jsnum \<Rightarrow> jsnum \<Rightarrow> jsnum" where
  "nadd (Num x) (Num y) = fl (x + y)"
| "nadd NaN _ = NaN"
| "nadd _ NaN = NaN"
| "nadd PosInf NegInf = NaN"
| "nadd NegInf PosInf = NaN"
| "nadd PosInf _ = PosInf"
| "nadd NegInf _ = NegInf"
| "nadd _ PosInf = PosInf"
| "nadd _ NegInf = NegInf"

definition nsub :: "jsnum \<Rightarrow> jsnum \<Rightarrow> jsnum" where
  "nsub a b = nadd a (nneg b)"

definition inf_of :: "bool \<Rightarrow> jsnum" where
  "inf_of positive = (if positive then PosInf else NegInf)"

fun nmul :: "jsnum \<Rightarrow> jsnum \<Rightarrow> jsnum" where
  "nmul (Num x) (Num y) = fl (x * y)"
| "nmul NaN _ = NaN"
| "nmul _ NaN = NaN"
| "nmul PosInf (Num y) = (if y = 0 then NaN else inf_of (0 < y))"
| "nmul NegInf (Num y) = (if y = 0 then NaN else inf_of (y < 0))"
| "nmul (Num x) PosInf = (if x = 0 then NaN else inf_of (0 < x))"
| "nmul (Num x) NegInf = (if x = 0 then NaN else inf_of (x < 0))"
| "nmul PosInf PosInf = PosInf"
| "nmul NegInf NegInf = PosInf"
| "nmul PosInf NegInf = NegInf"
| "nmul NegInf PosInf = NegInf"

text \<open>A zero divisor is read as \<open>+0\<close>: the divisor of the program is never \<open>-0\<close>.\<close>

fun ndiv :: "jsnum \<Rightarrow> jsnum \<Rightarrow> jsnum" where
  "ndiv (Num x) (Num y) =
     (if y = 0 then (if x = 0 then NaN else inf_of (0 < x)) else fl (x / y))"
| "ndiv NaN _ = NaN"
| "ndiv _ NaN = NaN"
| "ndiv (Num x) PosInf = Num 0"
| "ndiv (Num x) NegInf = Num 0"
| "ndiv PosInf (Num y) = inf_of (0 \<le> y)"
| "ndiv NegInf (Num y) = inf_of (y < 0)"
| "ndiv PosInf PosInf = NaN"
| "ndiv PosInf NegInf = NaN"
| "ndiv NegInf PosInf = NaN"
| "ndiv NegInf NegInf = NaN"

text \<open>\<open>Math.sqrt\<close> is the correctly rounded square root of IEEE-754.\<close>

fun nsqrt :: "jsnum \<Rightarrow> jsnum" where
  "nsqrt (Num x) = (if x < 0 then NaN else fl (sqrt x))"
| "nsqrt PosInf = PosInf"
| "nsqrt NegInf = NaN"
| "nsqrt NaN = NaN"

text \<open>\<open>Math.trunc\<close> on a finite number: rounding towards zero.\<close>

definition trunc :: "real \<Rightarrow> int" where
  "trunc x = (if 0 \<le> x then \<lfloor>x\<rfloor> else \<lceil>x\<rceil>)"

subsection \<open>String operations\<close>

text \<open>The code units that \<open>String.prototype.trim\<close> strips: WhiteSpace and
  LineTerminator of ECMAScript.\<close>

definition is_ws :: "nat \<Rightarrow> bool" where
  "is_ws c \<longleftrightarrow>
     c \<in> {0x09, 0x0A, 0x0B, 0x0C, 0x0D, 0x20, 0xA0, 0x1680, 0x2028, 0x2029, 0x202F, 0x205F,
          0x3000, 0xFEFF} \<or> (0x2000 \<le> c \<and> c \<le> 0x200A)"

definition trim :: "jsstring \<Rightarrow> jsstring" where
  "trim s = rev (dropWhile is_ws (rev (dropWhile is_ws s)))"

text \<open>\<open>h.includes(n)\<close>: \<open>n\<close> occurs in \<open>h\<close> as a contiguous run of code units.\<close>

fun includes' :: "jsstring \<Rightarrow> jsstring \<Rightarrow> bool" where
  "includes' [] n = (n = [])"
| "includes' (c # cs) n = (prefix n (c # cs) \<or> includes' cs n)"

section \<open>The index file (src/mcp_remote.ts)\<close>

record ChunkMeta =
  source :: jsstring
  heading :: jsstring
  part :: jsnum

record IndexedChunk =
  id' :: jsstring
  text' :: jsstring
  meta :: ChunkMeta
  embedding :: "jsnum list"

record IndexFile =
  model :: jsstring
  chunks :: "IndexedChunk list"

section \<open>Similarity\<close>

text \<open>
  \<open>dot\<close> runs \<open>i\<close> over the indices of \<open>a\<close> and adds \<open>a[i] * b[i]\<close> to \<open>s\<close>, rounding the
  product and the sum. Past the end of \<open>b\<close> the read \<open>b[i]\<close> is \<open>undefined\<close>, the product
  is NaN and so is the sum. The accumulator form follows the loop: both lists are
  consumed in step.
\<close>

fun dot_loop :: "jsnum \<Rightarrow> jsnum list \<Rightarrow> jsnum list \<Rightarrow> jsnum" where
  "dot_loop s [] b = s"
| "dot_loop s (x # a) [] = dot_loop (nadd s (nmul x NaN)) a []"
| "dot_loop s (x # a) (y # b) = dot_loop (nadd s (nmul x y)) a b"

definition dot :: "jsnum list \<Rightarrow> jsnum list \<Rightarrow> jsnum" where
  "dot a b = dot_loop (Num 0) a b"

definition norm' :: "jsnum list \<Rightarrow> jsnum" where
  "norm' a = nsqrt (dot a a)"

definition cosineSim :: "jsnum list \<Rightarrow> jsnum list \<Rightarrow> jsnum" where
  "cosineSim a b =
     (let na = norm' a; nb = norm' b in
      if na = Num 0 \<or> nb = Num 0 then Num 0
      else ndiv (dot a b) (nmul na nb))"

definition sourceWeight :: "jsstring \<Rightarrow> jsnum" where
  "sourceWeight src =
     (if src = lit ''docs/api.md'' then fl 1.15
      else if src = lit ''docs/architecture.md'' then fl 1.1
      else if src = lit ''docs/overview.md'' then fl 1.05
      else if src = lit ''docs/faq.md'' then fl 0.95
      else fl 1.0)"

section \<open>Argument normalization (src/mcp_remote.ts)\<close>

lemma map_of_size [termination_simp]:
  "map_of kvs k = Some (v :: jsval) \<Longrightarrow> size v < Suc (size_list (\<lambda>x. Suc (size (snd x))) kvs)"
  by (induction kvs) (auto split: if_splits)

text \<open>
  \<open>unwrap\<close> inside \<open>normalizeSearchArgs\<close>. A falsy value and a value whose \<open>typeof\<close> is
  not \<open>"object"\<close> are returned as they are; an array is an object without the keys
  \<open>arguments\<close> and \<open>input\<close>.
\<close>

fun normalizeSearchArgs_unwrap :: "jsval \<Rightarrow> jsval" where
  "normalizeSearchArgs_unwrap (JObj kvs) =
     (case map_of kvs (lit ''arguments'') of
        Some a \<Rightarrow> normalizeSearchArgs_unwrap a
      | None \<Rightarrow>
         (case map_of kvs (lit ''input'') of
            Some i \<Rightarrow> normalizeSearchArgs_unwrap i
          | None \<Rightarrow> JObj kvs))"
| "normalizeSearchArgs_unwrap v = v"

record SearchArgs =
  query :: jsstring
  topK :: int

definition DEFAULT_TOPK :: int where
  "DEFAULT_TOPK = 8"

definition normalizeSearchArgs :: "jsval \<Rightarrow> SearchArgs" where
  "normalizeSearchArgs raw =
     (case normalizeSearchArgs_unwrap raw of
        JStr s \<Rightarrow> \<lparr>query = s, topK = DEFAULT_TOPK\<rparr>
      | JObj o' \<Rightarrow>
          (let q = (case map_of o' (lit ''query'') of
                      Some (JStr s) \<Rightarrow> Some s
                    | _ \<Rightarrow> (case map_of o' (lit ''q'') of
                              Some (JStr s) \<Rightarrow> Some s
                            | _ \<Rightarrow> None));
               k = (case map_of o' (lit ''topK'') of
                      Some (JNum (Num x)) \<Rightarrow> max 1 (min 20 (trunc x))
                    | _ \<Rightarrow> DEFAULT_TOPK)
           in case q of
                Some s \<Rightarrow> \<lparr>query = s, topK = k\<rparr>
              | None \<Rightarrow> \<lparr>query = [], topK = DEFAULT_TOPK\<rparr>)
      | _ \<Rightarrow> \<lparr>query = [], topK = DEFAULT_TOPK\<rparr>)"

text \<open>\<open>unwrap\<close> inside \<open>normalizeFetchArgs\<close>: a second closure with its own body.\<close>

fun normalizeFetchArgs_unwrap :: "jsval \<Rightarrow> jsval" where
  "normalizeFetchArgs_unwrap (JObj kvs) =
     (case map_of kvs (lit ''arguments'') of
        Some a \<Rightarrow> normalizeFetchArgs_unwrap a
      | None \<Rightarrow>
         (case map_of kvs (lit ''input'') of
            Some i \<Rightarrow> normalizeFetchArgs_unwrap i
          | None \<Rightarrow> JObj kvs))"
| "normalizeFetchArgs_unwrap v = v"

definition normalizeFetchArgs :: "jsval \<Rightarrow> jsstring" where
  "normalizeFetchArgs raw =
     (case normalizeFetchArgs_unwrap raw of
        JStr s \<Rightarrow> s
      | JObj o' \<Rightarrow> (case map_of o' (lit ''id'') of Some (JStr s) \<Rightarrow> s | _ \<Rightarrow> [])
      | _ \<Rightarrow> [])"

section \<open>The tools (src/mcp_remote.ts)\<close>

text \<open>
  A tool result: \<open>isError\<close> is the flag of the returned object (absent is \<open>False\<close>), and
  \<open>content\<close> is the value whose \<open>JSON.stringify\<close> text is the one content item.
\<close>

record ToolResult =
  isError :: bool
  content :: jsval

definition tool_error :: "string \<Rightarrow> jsstring \<Rightarrow> ToolResult" where
  "tool_error tag message =
     \<lparr>isError = True,
      content = JObj [(lit ''error'', JStr (lit tag)), (lit ''message'', JStr message)]\<rparr>"

definition canonicalUrlFor :: "jsstring \<Rightarrow> ChunkMeta \<Rightarrow> jsstring" where
  "canonicalUrlFor DOC_BASE_URL m = DOC_BASE_URL @ source m"

definition title_of :: "ChunkMeta \<Rightarrow> jsstring" where
  "title_of m = heading m @ lit '' ('' @ source m @ lit '')''"

subsection \<open>Sorting\<close>

text \<open>
  \<open>Array.prototype.sort\<close> belongs to the engine, not to the program, and ECMAScript fixes
  its result only for a consistent comparator: then the result is sorted and the sort is
  stable. For any other comparator, one that returns NaN for instance, the result is some
  rearrangement of the list that the engine chooses. The rankers therefore take the
  engine's sort as a parameter \<open>srt\<close>. The stable insertion sort \<open>js_sort\<close> is one such
  sort: \<open>x\<close> stays before a later \<open>y\<close> unless the comparator's value on \<open>(x, y)\<close> is
  positive, and a NaN value counts as \<open>+0\<close>.
\<close>

type_synonym 'a sorter = "('a \<Rightarrow> 'a \<Rightarrow> jsnum) \<Rightarrow> 'a list \<Rightarrow> 'a list"

definition positive :: "jsnum \<Rightarrow> bool" where
  "positive v = (case v of Num x \<Rightarrow> 0 < x | PosInf \<Rightarrow> True | _ \<Rightarrow> False)"

definition negative :: "jsnum \<Rightarrow> bool" where
  "negative v = (case v of Num x \<Rightarrow> x < 0 | NegInf \<Rightarrow> True | _ \<Rightarrow> False)"

fun js_insert :: "('a \<Rightarrow> 'a \<Rightarrow> jsnum) \<Rightarrow> 'a \<Rightarrow> 'a list \<Rightarrow> 'a list" where
  "js_insert cmp x [] = [x]"
| "js_insert cmp x (y # ys) =
     (if positive (cmp x y) then y # js_insert cmp x ys else x # y # ys)"

fun js_sort :: "'a sorter" where
  "js_sort cmp [] = []"
| "js_sort cmp (x # xs) = js_insert cmp x (js_sort cmp xs)"

text \<open>\<open>xs.slice(0, k)\<close> for an integer \<open>k\<close>: a negative \<open>k\<close> counts from the end.\<close>

definition slice0 :: "int \<Rightarrow> 'a list \<Rightarrow> 'a list" where
  "slice0 k xs = (if k < 0 then take (nat (int (length xs) + k)) xs else take (nat k) xs)"

subsection \<open>search\<close>

record Scored =
  chunk :: IndexedChunk
  score :: jsnum
  weighted :: jsnum

definition by_weighted_desc :: "Scored \<Rightarrow> Scored \<Rightarrow> jsnum" where
  "by_weighted_desc a b = nsub (weighted b) (weighted a)"

definition score_chunk :: "jsnum list \<Rightarrow> IndexedChunk \<Rightarrow> Scored" where
  "score_chunk qEmb c =
     (let score = cosineSim qEmb (embedding c);
          weighted = nmul score (sourceWeight (source (meta c)))
      in \<lparr>chunk = c, score = score, weighted = weighted\<rparr>)"

definition scored :: "Scored sorter \<Rightarrow> jsnum list \<Rightarrow> IndexedChunk list \<Rightarrow> int \<Rightarrow> Scored list" where
  "scored srt qEmb cs k = slice0 k (srt by_weighted_desc (map (score_chunk qEmb) cs))"

definition search_result :: "jsstring \<Rightarrow> Scored \<Rightarrow> jsval" where
  "search_result DOC_BASE_URL e =
     JObj [(lit ''id'', JStr (id' (chunk e))),
           (lit ''title'', JStr (title_of (meta (chunk e)))),
           (lit ''url'', JStr (canonicalUrlFor DOC_BASE_URL (meta (chunk e))))]"

text \<open>
  The embedding provider is a parameter: given the text and the model it returns a vector
  or fails with a message. A tool call returns its result and the provider calls it made,
  in order.
\<close>

type_synonym embedder = "jsstring \<Rightarrow> jsstring \<Rightarrow> jsstring + jsnum list"

definition search_tool ::
  "Scored sorter \<Rightarrow> embedder \<Rightarrow> jsstring \<Rightarrow> IndexFile \<Rightarrow> jsval \<Rightarrow>
   ToolResult \<times> (jsstring \<times> jsstring) list" where
  "search_tool srt embedQuery DOC_BASE_URL index args =
     (let a = normalizeSearchArgs args; q = trim (query a) in
      if q = [] then
        (tool_error ''invalid_query''
           (lit ''search arguments did not contain a valid query string''), [])
      else
        (case embedQuery q (model index) of
           Inl message \<Rightarrow> (tool_error ''search_failed'' message, [(q, model index)])
         | Inr qEmb \<Rightarrow>
             (\<lparr>isError = False,
               content = JObj [(lit ''results'',
                 JArr (map (search_result DOC_BASE_URL)
                        (scored srt qEmb (chunks index) (topK a))))]\<rparr>,
              [(q, model index)])))"

subsection \<open>fetch\<close>

definition meta_json :: "ChunkMeta \<Rightarrow> jsval" where
  "meta_json m =
     JObj [(lit ''source'', JStr (source m)), (lit ''heading'', JStr (heading m)),
           (lit ''part'', JNum (part m))]"

definition not_found :: "jsstring \<Rightarrow> jsstring \<Rightarrow> jsval" where
  "not_found i DOC_BASE_URL =
     JObj [(lit ''id'', JStr i), (lit ''title'', JStr (lit ''NOT_FOUND'')),
           (lit ''text'', JStr []), (lit ''url'', JStr DOC_BASE_URL),
           (lit ''metadata'', JObj [(lit ''error'', JStr (lit ''not_found''))])]"

definition doc :: "jsstring \<Rightarrow> IndexedChunk \<Rightarrow> jsval" where
  "doc DOC_BASE_URL hit =
     JObj [(lit ''id'', JStr (id' hit)), (lit ''title'', JStr (title_of (meta hit))),
           (lit ''text'', JStr (text' hit)),
           (lit ''url'', JStr (canonicalUrlFor DOC_BASE_URL (meta hit))),
           (lit ''metadata'', meta_json (meta hit))]"

definition fetch_tool :: "jsstring \<Rightarrow> IndexFile \<Rightarrow> jsval \<Rightarrow> ToolResult" where
  "fetch_tool DOC_BASE_URL index args =
     (let i = trim (normalizeFetchArgs args) in
      if i = [] then
        tool_error ''invalid_id'' (lit ''fetch arguments did not contain a valid id string'')
      else
        (case find (\<lambda>c. id' c = i) (chunks index) of
           None \<Rightarrow> \<lparr>isError = True, content = not_found i DOC_BASE_URL\<rparr>
         | Some hit \<Rightarrow> \<lparr>isError = False, content = doc DOC_BASE_URL hit\<rparr>))"

text \<open>
  The fetch handler of the two older server variants, src/unnamed/part_003 (registered
  with the schema \<open>z.string().min(1)\<close>) and src/unnamed/part_004 (registered with
  \<open>{id: z.string().min(1)}\<close>): in both the handler receives the validated id itself, does
  not trim it, and has the same body.
\<close>

definition fetch_tool_string :: "jsstring \<Rightarrow> IndexFile \<Rightarrow> jsstring \<Rightarrow> ToolResult" where
  "fetch_tool_string DOC_BASE_URL index i =
     (case find (\<lambda>c. id' c = i) (chunks index) of
        None \<Rightarrow> \<lparr>isError = False, content = not_found i DOC_BASE_URL\<rparr>
      | Some hit \<Rightarrow> \<lparr>isError = False, content = doc DOC_BASE_URL hit\<rparr>)"

section \<open>The scripts (scripts/server.ts, scripts/search.ts)\<close>

text \<open>
  Both scripts carry the same \<open>sourceWeight\<close> and \<open>headingWeight\<close>, which differ from
  the server's. The keywords are the code units of the Japanese words for retry, backoff
  and authentication.
\<close>

definition kw_retry :: jsstring where
  "kw_retry = [0x30EA, 0x30C8, 0x30E9, 0x30A4]"

definition kw_backoff :: jsstring where
  "kw_backoff = [0x30D0, 0x30C3, 0x30AF, 0x30AA, 0x30D5]"

definition kw_auth :: jsstring where
  "kw_auth = [0x8A8D, 0x8A3C]"

definition scripts_sourceWeight :: "jsstring \<Rightarrow> jsnum" where
  "scripts_sourceWeight src =
     (if src = lit ''docs/api.md'' then fl 1.35
      else if src = lit ''docs/architecture.md'' then fl 1.05
      else if src = lit ''docs/overview.md'' then fl 1.05
      else if src = lit ''docs/faq.md'' then fl 0.95
      else fl 1.0)"

text \<open>\<open>rest\<close> is what the function reaches when the retry block returns nothing.\<close>

definition headingWeight :: "jsstring \<Rightarrow> jsstring \<Rightarrow> jsnum" where
  "headingWeight h q =
     (let rest = (if includes' q kw_auth \<and> (includes' h (lit ''OAuth'') \<or> includes' h kw_auth)
                  then fl 1.25 else fl 1.0)
      in if includes' q kw_retry then
           (if includes' h kw_retry then fl 1.35
            else if includes' h kw_backoff then fl 1.25
            else if includes' h (lit ''POST /v1/orders'') then fl 1.05
            else rest)
         else rest)"

definition scripts_score_chunk :: "jsnum list \<Rightarrow> jsstring \<Rightarrow> IndexedChunk \<Rightarrow> Scored" where
  "scripts_score_chunk qEmb q c =
     (let score = cosineSim qEmb (embedding c);
          weighted = nmul (nmul score (scripts_sourceWeight (source (meta c))))
                          (headingWeight (heading (meta c)) q)
      in \<lparr>chunk = c, score = score, weighted = weighted\<rparr>)"

text \<open>The \<open>/search\<close> handler of scripts/server.ts up to \<open>slice(0, topK)\<close>, and the loop
  body of scripts/search.ts, which takes the first five.\<close>

definition server_hits ::
  "Scored sorter \<Rightarrow> jsnum list \<Rightarrow> IndexedChunk list \<Rightarrow> jsstring \<Rightarrow> int \<Rightarrow> Scored list" where
  "server_hits srt qEmb cs q k =
     slice0 k (srt by_weighted_desc (map (scripts_score_chunk qEmb q) cs))"

definition repl_scored ::
  "Scored sorter \<Rightarrow> jsnum list \<Rightarrow> IndexedChunk list \<Rightarrow> jsstring \<Rightarrow> Scored list" where
  "repl_scored srt qEmb cs q =
     slice0 5 (srt by_weighted_desc (map (scripts_score_chunk qEmb q) cs))"

section \<open>Notions of the specification\<close>

text \<open>An object without the envelope keys, and a field that holds a string.\<close>

definition plain :: "(jsstring \<times> jsval) list \<Rightarrow> bool" where
  "plain kvs \<longleftrightarrow> map_of kvs (lit ''arguments'') = None \<and> map_of kvs (lit ''input'') = None"

definition string_field :: "(jsstring \<times> jsval) list \<Rightarrow> string \<Rightarrow> jsstring option" where
  "string_field kvs k = (case map_of kvs (lit k) of Some (JStr s) \<Rightarrow> Some s | _ \<Rightarrow> None)"

text \<open>The query string that can be located in a search payload after unwrapping: the
  payload itself when it is a string, else its \<open>query\<close>, else its \<open>q\<close>.\<close>

definition located_query :: "jsval \<Rightarrow> jsstring option" where
  "located_query raw =
     (case normalizeSearchArgs_unwrap raw of
        JStr s \<Rightarrow> Some s
      | JObj kvs \<Rightarrow>
          (case string_field kvs ''query'' of
             Some s \<Rightarrow> Some s
           | None \<Rightarrow> string_field kvs ''q'')
      | _ \<Rightarrow> None)"

text \<open>The id string that can be obtained from a fetch payload after unwrapping.\<close>

definition located_id :: "jsval \<Rightarrow> jsstring option" where
  "located_id raw =
     (case normalizeFetchArgs_unwrap raw of
        JStr s \<Rightarrow> Some s
      | JObj kvs \<Rightarrow> string_field kvs ''id''
      | _ \<Rightarrow> None)"

text \<open>JavaScript's \<open><=\<close> and \<open><\<close> on numbers.\<close>

fun nle :: "jsnum \<Rightarrow> jsnum \<Rightarrow> bool" where
  "nle (Num x) (Num y) = (x \<le> y)"
| "nle NaN _ = False"
| "nle _ NaN = False"
| "nle NegInf _ = True"
| "nle _ PosInf = True"
| "nle _ _ = False"

fun nlt :: "jsnum \<Rightarrow> jsnum \<Rightarrow> bool" where
  "nlt (Num x) (Num y) = (x < y)"
| "nlt NaN _ = False"
| "nlt _ NaN = False"
| "nlt PosInf _ = False"
| "nlt _ NegInf = False"
| "nlt _ _ = True"

text \<open>
  The finite doubles are the reals that rounding leaves alone. All of them are integer
  multiples of \<open>2 ^ -1074\<close>, and so is the exact difference of two of them.
\<close>

definition double :: "real \<Rightarrow> bool" where
  "double x \<longleftrightarrow> fl x = Num x"

definition grid :: "real \<Rightarrow> bool" where
  "grid x \<longleftrightarrow> (\<exists>n::int. x = of_int n / 2 ^ 1074)"

text \<open>The doubles that the decimal literals 1.15, 1.1, 1.05, 0.95 and 1.35 denote.\<close>

definition d115 :: real where
  "d115 = 5179139571476070 / 2 ^ 52"

definition d110 :: real where
  "d110 = 4953959590107546 / 2 ^ 52"

definition d105 :: real where
  "d105 = 4728779608739021 / 2 ^ 52"

definition d095 :: real where
  "d095 = 8556839292003942 / 2 ^ 53"

definition d135 :: real where
  "d135 = 6079859496950170 / 2 ^ 52"

text \<open>The weighted score of an entry as a real, and a list whose weighted scores are all
  finite numbers.\<close>

definition wreal :: "Scored \<Rightarrow> real" where
  "wreal e = (case weighted e of Num x \<Rightarrow> x | _ \<Rightarrow> 0)"

definition finite_weights :: "Scored list \<Rightarrow> bool" where
  "finite_weights es \<longleftrightarrow> (\<forall>e\<in>set es. \<exists>x. weighted e = Num x)"

text \<open>
  A consistent comparator on a set of values, as ECMAScript defines it: the value is never
  NaN; every value compares equal to itself; comparing equal is symmetric and transitive;
  comparing less and comparing greater are transitive.
\<close>

definition consistent :: "('a \<Rightarrow> 'a \<Rightarrow> jsnum) \<Rightarrow> 'a set \<Rightarrow> bool" where
  "consistent cmp S \<longleftrightarrow>
     (\<forall>a\<in>S. \<forall>b\<in>S. cmp a b \<noteq> NaN)
   \<and> (\<forall>a\<in>S. cmp a a = Num 0)
   \<and> (\<forall>a\<in>S. \<forall>b\<in>S. cmp a b = Num 0 \<longrightarrow> cmp b a = Num 0)
   \<and> (\<forall>a\<in>S. \<forall>b\<in>S. \<forall>c\<in>S. cmp a b = Num 0 \<and> cmp b c = Num 0 \<longrightarrow> cmp a c = Num 0)
   \<and> (\<forall>a\<in>S. \<forall>b\<in>S. \<forall>c\<in>S. negative (cmp a b) \<and> negative (cmp b c) \<longrightarrow> negative (cmp a c))
   \<and> (\<forall>a\<in>S. \<forall>b\<in>S. \<forall>c\<in>S. positive (cmp a b) \<and> positive (cmp b c) \<longrightarrow> positive (cmp a c))"

text \<open>
  What ECMAScript asks of an engine's sort. The result is always a rearrangement of the
  list. For a comparator that is consistent on the elements of the list the result is
  sorted (the comparator's value on an entry and a later one is never positive) and the
  sort is stable (the entries that compare equal to a given one keep their order).
\<close>

definition conforming :: "'a sorter \<Rightarrow> bool" where
  "conforming srt \<longleftrightarrow>
     (\<forall>cmp xs. mset (srt cmp xs) = mset xs
             \<and> (consistent cmp (set xs) \<longrightarrow>
                  sorted_wrt (\<lambda>a b. \<not> positive (cmp a b)) (srt cmp xs)
                \<and> (\<forall>x\<in>set xs. filter (\<lambda>y. cmp x y = Num 0) (srt cmp xs) =
                                  filter (\<lambda>y. cmp x y = Num 0) xs)))"

text \<open>
  The ranker in the specification's words: for every chunk the raw similarity and the
  weighted score \<open>raw * sourceWeight * headingWeight\<close>, all chunks sorted by weighted score
  descending (a stable sort), the first \<open>k\<close> taken. The two weight tables are parameters.
\<close>

definition rank_spec ::
  "(jsstring \<Rightarrow> jsnum) \<Rightarrow> (jsstring \<Rightarrow> jsstring \<Rightarrow> jsnum) \<Rightarrow>
   jsnum list \<Rightarrow> IndexedChunk list \<Rightarrow> jsstring \<Rightarrow> nat \<Rightarrow> Scored list" where
  "rank_spec sw hw queryVector cs q k =
     take k (sort_key (\<lambda>e. - wreal e)
       (map (\<lambda>c. let raw = cosineSim queryVector (embedding c)
                 in \<lparr>chunk = c, score = raw,
                     weighted = nmul (nmul raw (sw (source (meta c))))
                                     (hw (heading (meta c)) q)\<rparr>) cs))"

text \<open>A chunk for the examples.\<close>

definition example_chunk :: "string \<Rightarrow> string \<Rightarrow> jsstring \<Rightarrow> jsnum list \<Rightarrow> IndexedChunk" where
  "example_chunk i src h e =
     \<lparr>id' = lit i, text' = lit ''text'',
      meta = \<lparr>source = lit src, heading = h, part = Num 0\<rparr>, embedding = e\<rparr>"

text \<open>
  A chunk list for the examples of ranking: seven chunks whose similarities to the query
  vector \<open>[1]\<close> are 1, 1, 1, 1, 1, -1 and 0, with the sources and headings that the
  weight tables tell apart.
\<close>

definition example_chunks :: "IndexedChunk list" where
  "example_chunks =
     [example_chunk ''c1'' ''docs/other.md'' (lit ''h'') [Num 1],
      example_chunk ''c2'' ''docs/faq.md'' (lit ''h'') [Num 1],
      example_chunk ''c3'' ''docs/other.md'' kw_retry [Num 1],
      example_chunk ''c4'' ''docs/api.md'' (lit ''h'') [Num 1],
      example_chunk ''c5'' ''docs/other.md'' kw_backoff [Num 1],
      example_chunk ''c6'' ''docs/other.md'' (lit ''h'') [Num (- 1)],
      example_chunk ''c7'' ''docs/other.md'' (lit ''h'') [Num 0]]"

section \<open>Facts about rounding\<close>

subsection \<open>Rounding to an integer\<close>

lemma round_even_near: "\<bar>of_int (round_even y) - y\<bar> \<le> 1/2"
  unfolding round_even_def Let_def by (auto; linarith)

lemma round_even_unique:
  assumes "\<bar>y - of_int n\<bar> < 1/2"
  shows "round_even y = n"
proof -
  have f: "of_int \<lfloor>y\<rfloor> \<le> y" "y < of_int \<lfloor>y\<rfloor> + 1"
    by linarith+
  from assms have n: "of_int n - 1/2 < y" "y < of_int n + 1/2"
    by linarith+
  have "of_int \<lfloor>y\<rfloor> < (of_int n + 1 :: real)" "(of_int n - 2 :: real) < of_int \<lfloor>y\<rfloor>"
    using f n by linarith+
  then have "\<lfloor>y\<rfloor> < n + 1" "n - 2 < \<lfloor>y\<rfloor>"
    by linarith+
  then consider "\<lfloor>y\<rfloor> = n" | "\<lfloor>y\<rfloor> = n - 1"
    by linarith
  then show ?thesis
  proof cases
    case 1
    then have "y - of_int \<lfloor>y\<rfloor> < 1/2" using n by simp
    then show ?thesis using 1 by (simp add: round_even_def Let_def)
  next
    case 2
    then have "1/2 < y - of_int \<lfloor>y\<rfloor>" using n by simp
    then show ?thesis using 2 by (simp add: round_even_def Let_def)
  qed
qed

lemma round_even_int: "round_even (of_int n) = n"
  by (rule round_even_unique) simp

lemma round_even_nonneg: "0 \<le> y \<Longrightarrow> 0 \<le> round_even y"
  unfolding round_even_def Let_def by (auto; linarith)

lemma round_even_nonpos: "y \<le> 0 \<Longrightarrow> round_even y \<le> 0"
proof -
  assume y: "y \<le> 0"
  have "\<lfloor>y\<rfloor> \<le> 0" using y by linarith
  moreover have "\<lfloor>y\<rfloor> + 1 \<le> 0" if "1/2 \<le> y - of_int \<lfloor>y\<rfloor>"
  proof -
    have "of_int \<lfloor>y\<rfloor> \<le> y - 1/2" using that by linarith
    then have "real_of_int \<lfloor>y\<rfloor> < 0" using y by linarith
    then show ?thesis by linarith
  qed
  ultimately show ?thesis
    unfolding round_even_def Let_def by auto
qed

lemma round_even_ge1: "1 \<le> y \<Longrightarrow> 1 \<le> round_even y"
proof -
  assume y: "1 \<le> y"
  have "1 \<le> \<lfloor>y\<rfloor>" using y by linarith
  then show ?thesis
    unfolding round_even_def Let_def by auto
qed

lemma round_even_minus: "round_even (- y) = - round_even y"
proof (cases "\<exists>n::int. y = of_int n + 1/2")
  case False
  have "\<bar>of_int (round_even y) - y\<bar> \<le> 1/2" by (rule round_even_near)
  moreover have "\<bar>of_int (round_even y) - y\<bar> \<noteq> 1/2"
  proof
    assume h: "\<bar>of_int (round_even y) - y\<bar> = 1/2"
    then consider "y = of_int (round_even y) + 1/2" | "y = of_int (round_even y - 1) + 1/2"
      by (auto simp: abs_if split: if_splits)
    then show False using False by cases blast+
  qed
  ultimately have "\<bar>- y - of_int (- round_even y)\<bar> < 1/2" by simp
  then show ?thesis by (rule round_even_unique)
next
  case True
  then obtain n :: int where y: "y = of_int n + 1/2" by blast
  have fy: "\<lfloor>y\<rfloor> = n" unfolding y by linarith
  have fm: "\<lfloor>- y\<rfloor> = - n - 1" unfolding y by linarith
  have "round_even y = (if even n then n else n + 1)"
    using fy y by (simp add: round_even_def Let_def)
  moreover have "round_even (- y) = (if even (- n - 1) then - n - 1 else - n)"
    using fm y by (simp add: round_even_def Let_def)
  ultimately show ?thesis by auto
qed

subsection \<open>Binades and the spacing of the doubles\<close>

lemma powr_powi: "(2::real) powr real_of_int k = 2 powi k"
  by (simp add: powr_real_of_int')

lemma powr_powi_Suc: "(2::real) powr (real_of_int k + 1) = 2 powi (k + 1)"
  using powr_powi [of "k + 1"] by simp

lemma expo:
  assumes "x \<noteq> 0" and "2 powi e \<le> \<bar>x\<bar>" and "\<bar>x\<bar> < 2 powi (e + 1)"
  shows "\<lfloor>log 2 \<bar>x\<bar>\<rfloor> = e"
proof -
  have "0 < \<bar>x\<bar>" using assms(1) by simp
  then show ?thesis
    using assms(2,3) by (simp add: floor_log_eq_powr_iff powr_powi powr_powi_Suc)
qed

lemma expo_bounds:
  assumes "x \<noteq> 0"
  shows "2 powi \<lfloor>log 2 \<bar>x\<bar>\<rfloor> \<le> \<bar>x\<bar>" "\<bar>x\<bar> < 2 powi (\<lfloor>log 2 \<bar>x\<bar>\<rfloor> + 1)"
proof -
  have "0 < \<bar>x\<bar>" using assms(1) by simp
  then have "2 powr real_of_int \<lfloor>log 2 \<bar>x\<bar>\<rfloor> \<le> \<bar>x\<bar> \<and> \<bar>x\<bar> < 2 powr real_of_int (\<lfloor>log 2 \<bar>x\<bar>\<rfloor> + 1)"
    using floor_log_eq_powr_iff [of "\<bar>x\<bar>" 2 "\<lfloor>log 2 \<bar>x\<bar>\<rfloor>"] by simp
  then show "2 powi \<lfloor>log 2 \<bar>x\<bar>\<rfloor> \<le> \<bar>x\<bar>" "\<bar>x\<bar> < 2 powi (\<lfloor>log 2 \<bar>x\<bar>\<rfloor> + 1)"
    by (simp_all add: powr_powi powr_powi_Suc)
qed

lemma powi_less_imp: "(2::real) powi m < 2 powi n \<Longrightarrow> m < n"
proof (rule ccontr)
  assume h: "(2::real) powi m < 2 powi n" and "\<not> m < n"
  then have "n \<le> m" by simp
  then have "(2::real) powi n \<le> 2 powi m" by (intro power_int_increasing) simp_all
  with h show False by simp
qed

lemma powi_le_imp: "(2::real) powi m \<le> 2 powi n \<Longrightarrow> m \<le> n"
proof (rule ccontr)
  assume h: "(2::real) powi m \<le> 2 powi n" and "\<not> m \<le> n"
  then have "n < m" by simp
  then have "(2::real) powi n < 2 powi m" by (intro power_int_strict_increasing) simp_all
  with h show False by simp
qed

lemma quantum_pos: "0 < quantum x"
  by (simp add: quantum_def)

lemma quantum_eval:
  assumes "x \<noteq> 0" and "2 powi e \<le> \<bar>x\<bar>" and "\<bar>x\<bar> < 2 powi (e + 1)"
  shows "quantum x = 2 powi (max (e - 52) (- 1074))"
  using expo [OF assms] by (simp add: quantum_def)

lemma fl_alt:
  "fl x = (if x = 0 then Num 0
           else if 2 ^ 1024 \<le> \<bar>rounded x\<bar> then (if 0 < x then PosInf else NegInf)
           else Num (rounded x))"
  by (simp add: fl_def)

lemma rounded_near: "\<bar>rounded x - x\<bar> \<le> quantum x / 2"
proof -
  have q: "0 < quantum x" by (rule quantum_pos)
  have "rounded x - x = (of_int (round_even (x / quantum x)) - x / quantum x) * quantum x"
    using q by (simp add: rounded_def field_simps)
  then have "\<bar>rounded x - x\<bar> = \<bar>of_int (round_even (x / quantum x)) - x / quantum x\<bar> * quantum x"
    using q by (simp add: abs_mult)
  also have "\<dots> \<le> 1/2 * quantum x"
    using round_even_near [of "x / quantum x"] q by (intro mult_right_mono) simp_all
  finally show ?thesis by simp
qed

lemma quantum_le:
  assumes "x \<noteq> 0"
  shows "quantum x \<le> \<bar>x\<bar> / 2 ^ 52 + 1 / 2 ^ 1074"
proof -
  define e where "e = \<lfloor>log 2 \<bar>x\<bar>\<rfloor>"
  have e: "2 powi e \<le> \<bar>x\<bar>" unfolding e_def by (rule expo_bounds(1) [OF assms])
  show ?thesis
  proof (cases "e - 52 \<le> - 1074")
    case True
    then have "max (e - 52) (- 1074) = - 1074" by simp
    then have "quantum x = 2 powi (- 1074)" unfolding quantum_def e_def by (rule arg_cong)
    then have "quantum x = 1 / 2 ^ 1074" by (simp add: power_int_minus field_simps)
    then show ?thesis by simp
  next
    case False
    then have "max (e - 52) (- 1074) = e - 52" by simp
    then have "quantum x = 2 powi (e - 52)" unfolding quantum_def e_def by (rule arg_cong)
    also have "\<dots> = 2 powi e / 2 ^ 52" by (simp add: power_int_diff)
    also have "\<dots> \<le> \<bar>x\<bar> / 2 ^ 52" using e by (simp add: divide_right_mono)
    finally show ?thesis by simp
  qed
qed

lemma quantum_normal:
  assumes "1 / 2 ^ 1022 \<le> \<bar>x\<bar>"
  shows "quantum x \<le> \<bar>x\<bar> / 2 ^ 52"
proof -
  have x: "x \<noteq> 0" using assms by auto
  define e where "e = \<lfloor>log 2 \<bar>x\<bar>\<rfloor>"
  have e: "2 powi e \<le> \<bar>x\<bar>" "\<bar>x\<bar> < 2 powi (e + 1)"
    unfolding e_def by (rule expo_bounds [OF x])+
  have "(2::real) powi (- 1022) < 2 powi (e + 1)"
    using assms e(2) by (simp add: power_int_minus field_simps)
  then have "- 1022 < e + 1" by (rule powi_less_imp)
  then have "max (e - 52) (- 1074) = e - 52" by simp
  then have "quantum x = 2 powi (e - 52)" unfolding quantum_def e_def by (rule arg_cong)
  also have "\<dots> = 2 powi e / 2 ^ 52" by (simp add: power_int_diff)
  also have "\<dots> \<le> \<bar>x\<bar> / 2 ^ 52" using e by (simp add: divide_right_mono)
  finally show ?thesis .
qed

subsection \<open>The error of a rounding\<close>

text \<open>A rounding that does not overflow is off by at most half the spacing; in the normal
  range that is a relative error of at most \<open>1 / 2 ^ 53\<close>.\<close>

lemma fl_error:
  assumes "fl x = Num y"
  shows "\<bar>y - x\<bar> \<le> \<bar>x\<bar> / 2 ^ 53 + 1 / 2 ^ 1075"
proof (cases "x = 0")
  case True
  then show ?thesis using assms by (simp add: fl_alt)
next
  case False
  then have "y = rounded x" using assms by (simp add: fl_alt split: if_splits)
  then have "\<bar>y - x\<bar> \<le> quantum x / 2" using rounded_near [of x] by simp
  also have "\<dots> \<le> (\<bar>x\<bar> / 2 ^ 52 + 1 / 2 ^ 1074) / 2"
    using quantum_le [OF False] by simp
  finally show ?thesis by simp
qed

lemma fl_normal:
  assumes "1 / 2 ^ 1022 \<le> \<bar>x\<bar>" and "\<bar>x\<bar> \<le> 2 ^ 1023"
  shows "\<exists>y. fl x = Num y \<and> \<bar>y - x\<bar> \<le> \<bar>x\<bar> / 2 ^ 53"
proof -
  have x: "x \<noteq> 0" using assms(1) by auto
  have "\<bar>rounded x - x\<bar> \<le> quantum x / 2" by (rule rounded_near)
  also have "\<dots> \<le> (\<bar>x\<bar> / 2 ^ 52) / 2"
    using quantum_normal [OF assms(1)] by simp
  finally have err: "\<bar>rounded x - x\<bar> \<le> \<bar>x\<bar> / 2 ^ 53" by simp
  have "\<bar>rounded x\<bar> \<le> \<bar>x\<bar> + \<bar>x\<bar> / 2 ^ 53" using err by linarith
  also have "\<dots> \<le> 2 ^ 1023 + 2 ^ 1023 / 2 ^ 53"
    using assms(2) by (intro add_mono divide_right_mono) simp_all
  also have "\<dots> < (2::real) ^ 1024" by simp
  finally have "\<not> 2 ^ 1024 \<le> \<bar>rounded x\<bar>" by simp
  then have "fl x = Num (rounded x)" using x by (simp add: fl_alt)
  then show ?thesis using err by blast
qed

subsection \<open>Evaluating a rounding\<close>

text \<open>Given the binade of \<open>x\<close> and the integer nearest to \<open>x\<close> over the spacing, \<open>fl x\<close>
  is known.\<close>

lemma fl_eval:
  assumes "x \<noteq> 0" and "2 powi e \<le> \<bar>x\<bar>" and "\<bar>x\<bar> < 2 powi (e + 1)"
    and "\<bar>x / 2 powi (max (e - 52) (- 1074)) - of_int n\<bar> < 1/2"
    and "\<bar>real_of_int n * 2 powi (max (e - 52) (- 1074))\<bar> < 2 ^ 1024"
  shows "fl x = Num (of_int n * 2 powi (max (e - 52) (- 1074)))"
proof -
  have q: "quantum x = 2 powi (max (e - 52) (- 1074))"
    by (rule quantum_eval [OF assms(1-3)])
  have "round_even (x / quantum x) = n"
    unfolding q by (rule round_even_unique [OF assms(4)])
  then have "rounded x = of_int n * 2 powi (max (e - 52) (- 1074))"
    by (simp add: rounded_def q)
  then show ?thesis
    using assms(1,5) by (simp add: fl_alt)
qed

subsection \<open>The grid of the doubles, and signs\<close>

lemma quantum_grid:
  assumes "x \<noteq> 0"
  shows "\<exists>m. - 1074 \<le> m \<and> quantum x = 2 powi m"
  unfolding quantum_def by (intro exI [of _ "max (\<lfloor>log 2 \<bar>x\<bar>\<rfloor> - 52) (- 1074)"]) simp

lemma grid_powi:
  assumes "- 1074 \<le> m"
  shows "grid (real_of_int n * 2 powi m)"
proof -
  have "(2::real) powi (m + 1074) = 2 powi m * 2 powi 1074"
    by (rule power_int_add) simp
  then have "(2::real) powi m = 2 powi (m + 1074) / 2 ^ 1074"
    by simp
  also have "(2::real) powi (m + 1074) = 2 ^ nat (m + 1074)"
    using assms by (simp add: power_int_def)
  finally have "real_of_int n * 2 powi m = real_of_int (n * 2 ^ nat (m + 1074)) / 2 ^ 1074"
    by simp
  then show ?thesis unfolding grid_def by blast
qed

lemma grid_0: "grid 0"
  unfolding grid_def by (intro exI [of _ 0]) simp

lemma fl_grid:
  assumes "fl x = Num y"
  shows "grid y"
proof (cases "x = 0")
  case True
  then show ?thesis using assms by (simp add: fl_alt grid_0)
next
  case False
  then have y: "y = rounded x" using assms by (simp add: fl_alt split: if_splits)
  obtain m where "- 1074 \<le> m" "quantum x = 2 powi m"
    using quantum_grid [OF False] by blast
  then show ?thesis unfolding y rounded_def by (simp add: grid_powi)
qed

lemma grid_diff: "grid a \<Longrightarrow> grid b \<Longrightarrow> grid (b - a)"
  unfolding grid_def
proof -
  assume "\<exists>n::int. a = of_int n / 2 ^ 1074" "\<exists>n::int. b = of_int n / 2 ^ 1074"
  then obtain n m :: int where "a = of_int n / 2 ^ 1074" "b = of_int m / 2 ^ 1074" by blast
  then have "b - a = of_int (m - n) / 2 ^ 1074" by (simp add: diff_divide_distrib)
  then show "\<exists>n::int. b - a = of_int n / 2 ^ 1074" by blast
qed

lemma grid_pos: "grid x \<Longrightarrow> 0 < x \<Longrightarrow> 1 / 2 ^ 1074 \<le> x"
  unfolding grid_def
proof -
  assume "\<exists>n::int. x = of_int n / 2 ^ 1074" "0 < x"
  then obtain n :: int where n: "x = of_int n / 2 ^ 1074" by blast
  with \<open>0 < x\<close> have "0 < real_of_int n" by (simp add: zero_less_divide_iff)
  then have "0 < n" by simp
  then have "1 \<le> n" by simp
  then have "1 \<le> real_of_int n" by simp
  then show "1 / 2 ^ 1074 \<le> x" unfolding n by (intro divide_right_mono) simp_all
qed

lemma quantum_le_abs:
  assumes "1 / 2 ^ 1074 \<le> \<bar>x\<bar>"
  shows "quantum x \<le> \<bar>x\<bar>"
proof -
  have x: "x \<noteq> 0" using assms by auto
  define e where "e = \<lfloor>log 2 \<bar>x\<bar>\<rfloor>"
  have e: "2 powi e \<le> \<bar>x\<bar>" unfolding e_def by (rule expo_bounds(1) [OF x])
  show ?thesis
  proof (cases "e - 52 \<le> - 1074")
    case True
    then have "max (e - 52) (- 1074) = - 1074" by simp
    then have "quantum x = 2 powi (- 1074)" unfolding quantum_def e_def by (rule arg_cong)
    then have "quantum x = 1 / 2 ^ 1074" by (simp add: power_int_minus field_simps)
    then show ?thesis using assms by simp
  next
    case False
    then have "max (e - 52) (- 1074) = e - 52" by simp
    then have "quantum x = 2 powi (e - 52)" unfolding quantum_def e_def by (rule arg_cong)
    also have "\<dots> \<le> 2 powi e" by (intro power_int_increasing) simp_all
    finally show ?thesis using e by simp
  qed
qed

lemma rounded_pos:
  assumes "1 / 2 ^ 1074 \<le> x"
  shows "0 < rounded x"
proof -
  have q: "0 < quantum x" by (rule quantum_pos)
  have "quantum x \<le> x" using quantum_le_abs [of x] assms by simp
  then have "1 \<le> x / quantum x" using q by (simp add: le_divide_eq)
  then have "1 \<le> round_even (x / quantum x)" by (rule round_even_ge1)
  then have "0 < real_of_int (round_even (x / quantum x))" by simp
  then show ?thesis unfolding rounded_def using q by simp
qed

lemma rounded_nonneg: "0 \<le> x \<Longrightarrow> 0 \<le> rounded x"
  unfolding rounded_def using quantum_pos [of x] round_even_nonneg [of "x / quantum x"]
  by simp

lemma rounded_nonpos: "x \<le> 0 \<Longrightarrow> rounded x \<le> 0"
proof -
  assume x: "x \<le> 0"
  have q: "0 < quantum x" by (rule quantum_pos)
  then have "x / quantum x \<le> 0" using x by (simp add: divide_le_0_iff)
  then have "round_even (x / quantum x) \<le> 0" by (rule round_even_nonpos)
  then have "real_of_int (round_even (x / quantum x)) \<le> 0" by simp
  then show ?thesis unfolding rounded_def using q by (simp add: mult_le_0_iff)
qed

lemma fl_positive: "1 / 2 ^ 1074 \<le> x \<Longrightarrow> positive (fl x)"
proof -
  assume x: "1 / 2 ^ 1074 \<le> x"
  then have "0 < x" by (rule less_le_trans [rotated]) simp
  then show ?thesis using rounded_pos [OF x] by (simp add: fl_alt positive_def)
qed

lemma fl_not_positive: "x \<le> 0 \<Longrightarrow> \<not> positive (fl x)"
  using rounded_nonpos [of x] by (simp add: fl_alt positive_def)

lemma fl_not_negative: "0 \<le> x \<Longrightarrow> \<not> negative (fl x)"
  using rounded_nonneg [of x] by (simp add: fl_alt negative_def)

lemma quantum_minus: "quantum (- x) = quantum x"
  by (simp add: quantum_def)

lemma rounded_minus: "rounded (- x) = - rounded x"
  by (simp add: rounded_def quantum_minus round_even_minus)

lemma fl_minus: "fl (- x) = nneg (fl x)"
  by (simp add: fl_alt rounded_minus)

lemma fl_negative: "x \<le> - (1 / 2 ^ 1074) \<Longrightarrow> negative (fl x)"
proof -
  assume "x \<le> - (1 / 2 ^ 1074)"
  then have "1 / 2 ^ 1074 \<le> - x" by simp
  then have "positive (fl (- x))" by (rule fl_positive)
  then show ?thesis by (cases "fl x") (simp_all add: fl_minus positive_def negative_def)
qed

lemma fl_0: "fl 0 = Num 0"
  by (simp add: fl_def)

lemma fl_neq_NaN: "fl x \<noteq> NaN"
  by (simp add: fl_alt)

text \<open>A value with at most 53 significant bits on the grid is its own rounding.\<close>

lemma rounded_exact:
  assumes x: "x = real_of_int n * 2 powi k" and n: "\<bar>n\<bar> < 2 ^ 53" and k: "- 1074 \<le> k"
    and nz: "x \<noteq> 0"
  shows "rounded x = x"
proof -
  define e where "e = \<lfloor>log 2 \<bar>x\<bar>\<rfloor>"
  define m where "m = max (e - 52) (- 1074)"
  have e: "2 powi e \<le> \<bar>x\<bar>" unfolding e_def by (rule expo_bounds(1) [OF nz])
  have "\<bar>x\<bar> = \<bar>real_of_int n\<bar> * 2 powi k" by (simp add: x abs_mult)
  also have "\<dots> < 2 ^ 53 * 2 powi k"
  proof (intro mult_strict_right_mono)
    have "real_of_int \<bar>n\<bar> < real_of_int (2 ^ 53)" using n by (simp only: of_int_less_iff)
    then show "\<bar>real_of_int n\<bar> < 2 ^ 53" by simp
  qed simp
  also have "\<dots> = 2 powi (53 + k)" by (simp add: power_int_add)
  finally have "(2::real) powi e < 2 powi (53 + k)" using e by simp
  then have "e < 53 + k" by (rule powi_less_imp)
  then have mk: "m \<le> k" using k by (simp add: m_def)
  have q: "quantum x = 2 powi m" by (simp add: quantum_def e_def m_def)
  have "x / 2 powi m = of_int n * 2 powi (k - m)"
    by (simp add: x power_int_diff)
  also have "(2::real) powi (k - m) = 2 ^ nat (k - m)"
    using mk by (simp add: power_int_def)
  finally have "x / 2 powi m = of_int (n * 2 ^ nat (k - m))" by simp
  then have "round_even (x / quantum x) = n * 2 ^ nat (k - m)"
    unfolding q by (simp only: round_even_int)
  then have "rounded x = of_int (n * 2 ^ nat (k - m)) * 2 powi m"
    by (simp add: rounded_def q)
  also have "\<dots> = x / 2 powi m * 2 powi m"
    using \<open>x / 2 powi m = of_int (n * 2 ^ nat (k - m))\<close> by simp
  also have "\<dots> = x" by simp
  finally show "rounded x = x" .
qed

lemma fl_exact:
  assumes x: "x = real_of_int n * 2 powi k" and n: "\<bar>n\<bar> < 2 ^ 53" and k: "- 1074 \<le> k"
    and b: "\<bar>x\<bar> < 2 ^ 1024"
  shows "fl x = Num x"
proof (cases "x = 0")
  case True
  then show ?thesis by (simp add: fl_0)
next
  case False
  then show ?thesis using rounded_exact [OF x n k False] b by (simp add: fl_alt)
qed

text \<open>A power of two from \<open>2 ^ 1024\<close> on overflows.\<close>

lemma fl_overflow:
  assumes "1024 \<le> k"
  shows "fl (2 ^ k) = PosInf"
proof -
  have x: "(2::real) ^ k = real_of_int 1 * 2 powi (int k)" by simp
  have "rounded (2 ^ k) = 2 ^ k"
    by (rule rounded_exact [OF x]) simp_all
  moreover have "(2::real) ^ 1024 \<le> 2 ^ k"
    using assms by (intro power_increasing) simp_all
  ultimately show ?thesis by (simp add: fl_alt)
qed

subsection \<open>Doubles\<close>

lemma double_exact:
  assumes "x = real_of_int n * 2 powi k" and "\<bar>n\<bar> < 2 ^ 53" and "- 1074 \<le> k"
    and "\<bar>x\<bar> < 2 ^ 1024"
  shows "double x"
  unfolding double_def using assms by (rule fl_exact)

lemma double_grid: "double x \<Longrightarrow> grid x"
  unfolding double_def by (rule fl_grid)

lemma rounded_form:
  assumes "x \<noteq> 0"
  shows "\<exists>N m. rounded x = real_of_int N * 2 powi m \<and> - 1074 \<le> m \<and> \<bar>N\<bar> \<le> 2 ^ 53"
proof -
  define e where "e = \<lfloor>log 2 \<bar>x\<bar>\<rfloor>"
  define m where "m = max (e - 52) (- 1074)"
  define N where "N = round_even (x / 2 powi m)"
  have q: "quantum x = 2 powi m" by (simp add: quantum_def e_def m_def)
  have m: "- 1074 \<le> m" "e + 1 - m \<le> 53" by (simp_all add: m_def)
  have "\<bar>x\<bar> < 2 powi (e + 1)" unfolding e_def by (rule expo_bounds(2) [OF assms])
  then have "\<bar>x\<bar> / 2 powi m < 2 powi (e + 1) / 2 powi m"
    by (intro divide_strict_right_mono) simp_all
  also have "\<dots> = 2 powi (e + 1 - m)" by (simp add: power_int_diff)
  also have "\<dots> \<le> 2 powi 53" using m(2) by (intro power_int_increasing) simp_all
  finally have b: "\<bar>x / 2 powi m\<bar> < 2 ^ 53" by simp
  have "\<bar>real_of_int N - x / 2 powi m\<bar> \<le> 1/2" unfolding N_def by (rule round_even_near)
  then have "\<bar>real_of_int N\<bar> < 2 ^ 53 + 1" using b by linarith
  then have "real_of_int \<bar>N\<bar> < real_of_int (2 ^ 53 + 1)" by simp
  then have "\<bar>N\<bar> < 2 ^ 53 + 1" by (simp only: of_int_less_iff)
  then have "\<bar>N\<bar> \<le> 2 ^ 53" by simp
  moreover have "rounded x = real_of_int N * 2 powi m" by (simp add: rounded_def q N_def)
  ultimately show ?thesis using m(1) by blast
qed

lemma fl_double:
  assumes "fl x = Num y"
  shows "double y"
proof (cases "x = 0")
  case True
  then have "y = 0" using assms by (simp add: fl_0)
  then show ?thesis by (simp add: double_def fl_0)
next
  case False
  then have y: "y = rounded x" "\<bar>y\<bar> < 2 ^ 1024"
    using assms by (simp_all add: fl_def split: if_splits)
  obtain N m where N: "rounded x = real_of_int N * 2 powi m" "- 1074 \<le> m" "\<bar>N\<bar> \<le> 2 ^ 53"
    using rounded_form [OF False] by blast
  show ?thesis
  proof (cases "\<bar>N\<bar> < 2 ^ 53")
    case True
    show ?thesis
      by (rule double_exact [OF _ True N(2) y(2)]) (simp add: y(1) N(1))
  next
    case False
    then have "\<bar>N\<bar> = 2 ^ 53" using N(3) by simp
    then have "N = 2 ^ 53 \<or> N = - (2 ^ 53)" by linarith
    then have N2: "N = 2 * (N div 2)" "\<bar>N div 2\<bar> < 2 ^ 53" by auto
    have "(2::real) powi (m + 1) = 2 powi m * 2 powi 1" by (rule power_int_add) simp
    then have "real_of_int (N div 2) * 2 powi (m + 1) = real_of_int (2 * (N div 2)) * 2 powi m"
      by simp
    also have "\<dots> = y" using N2(1) N(1) y(1) by simp
    finally have "y = real_of_int (N div 2) * 2 powi (m + 1)" by simp
    moreover have "- 1074 \<le> m + 1" using N(2) by simp
    ultimately show ?thesis
      using N2(2) y(2) by (intro double_exact)
  qed
qed

lemma double_0: "double 0"
  by (simp add: double_def fl_0)

lemma double_int:
  assumes "\<bar>n\<bar> < 2 ^ 53"
  shows "double (real_of_int n)"
proof -
  have "\<bar>real_of_int n\<bar> < real_of_int (2 ^ 53)" using assms by (simp only: of_int_abs [symmetric] of_int_less_iff)
  then have "\<bar>real_of_int n\<bar> < 2 ^ 1024" by simp
  then show ?thesis
    using assms by (intro double_exact [of _ n 0]) simp_all
qed

lemma double_1: "double 1"
  using double_int [of 1] by simp

lemma double_2: "double 2"
  using double_int [of 2] by simp

lemma double_minus: "double x \<Longrightarrow> double (- x)"
  by (simp add: double_def fl_minus)

lemma fl_1: "fl 1 = Num 1"
  using double_1 by (simp add: double_def)

lemma fl_m1: "fl (- 1) = Num (- 1)"
  using double_minus [OF double_1] by (simp add: double_def)

lemma fl_2: "fl 2 = Num 2"
  using double_2 by (simp add: double_def)

text \<open>Multiplication by the literal \<open>1.0\<close> changes no double.\<close>

lemma nmul_1:
  assumes "\<And>x. v = Num x \<Longrightarrow> double x"
  shows "nmul v (Num 1) = v"
proof (cases v)
  case (Num x)
  then show ?thesis using assms [OF Num] by (simp add: double_def)
qed (simp_all add: inf_of_def)

lemma nmul_double: "nmul a b = Num w \<Longrightarrow> double w"
  by (cases a; cases b) (auto simp: fl_double inf_of_def split: if_splits)

lemma nadd_double: "nadd a b = Num w \<Longrightarrow> double w"
  by (cases a; cases b) (auto simp: fl_double)

lemma ndiv_double: "ndiv a b = Num w \<Longrightarrow> double w"
  by (cases a; cases b) (auto simp: fl_double double_0 inf_of_def split: if_splits)

lemma nsqrt_double: "nsqrt a = Num w \<Longrightarrow> double w"
  by (cases a) (auto simp: fl_double split: if_splits)

subsection \<open>The sign of a rounded difference\<close>

lemma positive_not_zero: "positive v \<Longrightarrow> v \<noteq> Num 0" "negative v \<Longrightarrow> v \<noteq> Num 0"
  by (auto simp: positive_def negative_def)

lemma positive_not_negative: "positive v \<Longrightarrow> \<not> negative v"
  by (cases v) (simp_all add: positive_def negative_def)

lemma fl_sign:
  assumes "grid d"
  shows "positive (fl d) \<longleftrightarrow> 0 < d" "negative (fl d) \<longleftrightarrow> d < 0" "fl d = Num 0 \<longleftrightarrow> d = 0"
proof -
  have p: "positive (fl d)" if "0 < d"
    using grid_pos [OF assms that] by (rule fl_positive)
  have "grid (0 - d)" using grid_0 assms by (rule grid_diff [rotated])
  then have gm: "grid (- d)" by simp
  have n: "negative (fl d)" if "d < 0"
  proof -
    have "1 / 2 ^ 1074 \<le> - d" using that by (intro grid_pos [OF gm]) simp
    then have "d \<le> - (1 / 2 ^ 1074)" by linarith
    then show ?thesis by (rule fl_negative)
  qed
  show "positive (fl d) \<longleftrightarrow> 0 < d"
    using p fl_not_positive [of d] by (cases "0 < d") simp_all
  show "negative (fl d) \<longleftrightarrow> d < 0"
    using n fl_not_negative [of d] by (cases "d < 0") simp_all
  show "fl d = Num 0 \<longleftrightarrow> d = 0"
  proof
    assume z: "fl d = Num 0"
    show "d = 0"
    proof (rule ccontr)
      assume "d \<noteq> 0"
      then consider "0 < d" | "d < 0" by linarith
      then show False
        using p n positive_not_zero [of "fl d"] z by cases blast+
    qed
  qed (simp add: fl_0)
qed

lemma nsub_sign:
  assumes "grid a" and "grid b"
  shows "positive (nsub (Num b) (Num a)) \<longleftrightarrow> a < b"
    and "negative (nsub (Num b) (Num a)) \<longleftrightarrow> b < a"
    and "nsub (Num b) (Num a) = Num 0 \<longleftrightarrow> a = b"
    and "nsub (Num b) (Num a) \<noteq> NaN"
  using fl_sign [OF grid_diff [OF assms]] by (auto simp: nsub_def fl_neq_NaN)

subsection \<open>The literals of the source\<close>

lemma fl_lit_115: "fl 1.15 = Num d115"
  using fl_eval [of "115 / 100" 0 5179139571476070] by (simp add: power_int_minus d115_def)

lemma fl_lit_110: "fl 1.1 = Num d110"
  using fl_eval [of "11 / 10" 0 4953959590107546] by (simp add: power_int_minus d110_def)

lemma fl_lit_105: "fl 1.05 = Num d105"
  using fl_eval [of "105 / 100" 0 4728779608739021] by (simp add: power_int_minus d105_def)

lemma fl_lit_095: "fl 0.95 = Num d095"
  using fl_eval [of "95 / 100" "- 1" 8556839292003942] by (simp add: power_int_minus d095_def)

lemma fl_lit_135: "fl 1.35 = Num d135"
  using fl_eval [of "135 / 100" 0 6079859496950170] by (simp add: power_int_minus d135_def)

lemma fl_lit_125: "fl 1.25 = Num (5 / 4)"
  using fl_eval [of "125 / 100" 0 5629499534213120] by (simp add: power_int_minus)

lemma fl_lit_1: "fl 1.0 = Num 1"
  using fl_1 by simp

lemma double_literals: "double d115" "double d110" "double d105" "double d095" "double d135"
  "double (5 / 4)"
  using fl_double [OF fl_lit_115] fl_double [OF fl_lit_110] fl_double [OF fl_lit_105]
    fl_double [OF fl_lit_095] fl_double [OF fl_lit_135] fl_double [OF fl_lit_125]
  by simp_all

lemma literal_bounds:
  "114 / 100 < d115" "d115 < 116 / 100" "94 / 100 < d095" "d095 < 96 / 100"
  "134 / 100 < d135" "d135 < 136 / 100" "104 / 100 < d105" "d105 < 106 / 100"
  "109 / 100 < d110" "d110 < 111 / 100"
  by (simp_all add: d115_def d095_def d135_def d105_def d110_def)

section \<open>Facts about the similarity\<close>

lemma nadd_NaN: "nadd s NaN = NaN"
  by (cases s) simp_all

lemma nmul_NaN: "nmul x NaN = NaN"
  by (cases x) simp_all

lemma ndiv_NaN: "ndiv NaN v = NaN"
  by (cases v) simp_all

lemma nmul_commute: "nmul x y = nmul y x"
  by (cases x; cases y) (simp_all add: mult.commute)

lemma nmul_0_0: "nmul (Num 0) (Num 0) = Num 0" "nadd (Num 0) (Num 0) = Num 0"
  by (simp_all add: fl_0)

subsection \<open>The dot product\<close>

lemma dot_loop_NaN: "dot_loop NaN a b = NaN"
proof (induction a arbitrary: b)
  case Nil
  then show ?case by simp
next
  case (Cons x a)
  then show ?case by (cases b) simp_all
qed

lemma dot_loop_short: "length b < length a \<Longrightarrow> dot_loop s a b = NaN"
proof (induction a arbitrary: s b)
  case Nil
  then show ?case by simp
next
  case (Cons x a)
  show ?case
  proof (cases b)
    case Nil
    then show ?thesis by (simp add: nmul_NaN nadd_NaN dot_loop_NaN)
  next
    case b: (Cons y b')
    then have "length b' < length a" using Cons.prems by simp
    then show ?thesis using Cons.IH b by simp
  qed
qed

lemma dot_loop_take:
  "length a \<le> length b \<Longrightarrow> dot_loop s a b = dot_loop s a (take (length a) b)"
proof (induction a arbitrary: s b)
  case Nil
  then show ?case by simp
next
  case (Cons x a)
  then obtain y b' where b: "b = y # b'" by (cases b) auto
  then have "length a \<le> length b'" using Cons.prems by simp
  then have "dot_loop (nadd s (nmul x y)) a b' =
             dot_loop (nadd s (nmul x y)) a (take (length a) b')"
    by (rule Cons.IH)
  then show ?case using b by simp
qed

lemma dot_loop_commute:
  "length a = length b \<Longrightarrow> dot_loop s a b = dot_loop s b a"
  by (induction a b arbitrary: s rule: list_induct2) (simp_all add: nmul_commute)

lemma dot_loop_zero:
  "\<forall>x\<in>set z. x = Num 0 \<Longrightarrow> dot_loop (Num 0) z z = Num 0"
  by (induction z) (simp_all add: fl_0)

lemma norm'_zero: "\<forall>x\<in>set z. x = Num 0 \<Longrightarrow> norm' z = Num 0"
  using dot_loop_zero [of z] by (simp add: norm'_def dot_def fl_0)

lemma cosineSim_zero:
  assumes "\<forall>x\<in>set z. x = Num 0"
  shows "cosineSim v z = Num 0" "cosineSim z v = Num 0"
  using norm'_zero [OF assms] by (simp_all add: cosineSim_def Let_def)

lemma cosineSim_commute:
  assumes "length a = length b"
  shows "cosineSim a b = cosineSim b a"
  using dot_loop_commute [OF assms, of "Num 0"]
  by (auto simp: cosineSim_def dot_def Let_def nmul_commute)

lemma cosineSim_double: "cosineSim a b = Num r \<Longrightarrow> double r"
  by (auto simp: cosineSim_def Let_def double_0 ndiv_double split: if_splits)

subsection \<open>The similarity of a vector with itself\<close>

lemma bound_upper: "1 / (1 - 1 / 2 ^ 53) ^ 3 * (1 + 1 / 2 ^ 53) \<le> (1 + 1 / 2 ^ 50 :: real)"
  by (simp add: power3_eq_cube field_simps)

lemma bound_lower: "(1 - 1 / 2 ^ 50 :: real) \<le> 1 / (1 + 1 / 2 ^ 53) ^ 3 * (1 - 1 / 2 ^ 53)"
  by (simp add: power3_eq_cube field_simps)

text \<open>In the normal range the relative error of one rounding is at most \<open>1 / 2 ^ 53\<close>.\<close>

lemma fl_bounds:
  assumes "1 / 2 ^ 1022 \<le> x" and "x \<le> 2 ^ 1023"
  shows "\<exists>y. fl x = Num y \<and> x * (1 - 1 / 2 ^ 53) \<le> y \<and> y \<le> x * (1 + 1 / 2 ^ 53)"
proof -
  have x: "0 < x" using assms(1) by (rule less_le_trans [rotated]) simp
  obtain y where y: "fl x = Num y" "\<bar>y - x\<bar> \<le> \<bar>x\<bar> / 2 ^ 53"
    using fl_normal [of x] assms x by auto
  then have "x - x / 2 ^ 53 \<le> y" "y \<le> x + x / 2 ^ 53"
    using x by linarith+
  moreover have "x * (1 - 1 / 2 ^ 53) = x - x / 2 ^ 53" "x * (1 + 1 / 2 ^ 53) = x + x / 2 ^ 53"
    by (simp_all add: algebra_simps)
  ultimately show ?thesis using y(1) by simp
qed

lemma sqrt_range:
  assumes "1 / 2 ^ 1021 \<le> d" and "d \<le> 2 ^ 1022"
  shows "1 / 2 ^ 1022 \<le> sqrt d" "sqrt d \<le> 2 ^ 1023"
proof -
  have d: "0 < d" using assms(1) by (rule less_le_trans [rotated]) simp
  have sq: "sqrt d * sqrt d = d" using d by simp
  have s0: "0 < sqrt d" using d by simp
  show "1 / 2 ^ 1022 \<le> sqrt d"
  proof (cases "1 \<le> d")
    case True
    then have "1 \<le> sqrt d" by simp
    moreover have "(1::real) / 2 ^ 1022 \<le> 1" by simp
    ultimately show ?thesis by linarith
  next
    case False
    then have "sqrt d \<le> 1" by simp
    then have "sqrt d * sqrt d \<le> 1 * sqrt d" using s0 by (intro mult_right_mono) simp_all
    then have "d \<le> sqrt d" using sq by simp
    moreover have "(1::real) / 2 ^ 1022 \<le> 1 / 2 ^ 1021" by simp
    ultimately show ?thesis using assms(1) by linarith
  qed
  show "sqrt d \<le> 2 ^ 1023"
  proof (cases "1 \<le> d")
    case True
    then have "1 \<le> sqrt d" by simp
    then have "1 * sqrt d \<le> sqrt d * sqrt d" using s0 by (intro mult_right_mono) simp_all
    then have "sqrt d \<le> d" using sq by simp
    moreover have "(2::real) ^ 1022 \<le> 2 ^ 1023" by simp
    ultimately show ?thesis using assms(2) by linarith
  next
    case False
    then have "sqrt d \<le> 1" by simp
    moreover have "(1::real) \<le> 2 ^ 1023" by simp
    ultimately show ?thesis by linarith
  qed
qed

lemma self_similarity_bound:
  assumes lo: "1 / 2 ^ 1021 \<le> d" and hi: "d \<le> 2 ^ 1022"
  shows "\<exists>n p r. fl (sqrt d) = Num n \<and> 0 < n \<and> fl (n * n) = Num p \<and> 0 < p \<and>
           fl (d / p) = Num r \<and> \<bar>r - 1\<bar> \<le> 1 / 2 ^ 50"
proof -
  define u :: real where "u = 1 / 2 ^ 53"
  have u: "0 < u" "u < 1" by (simp_all add: u_def)
  have d: "0 < d" using lo by (rule less_le_trans [rotated]) simp
  have r: "0 < sqrt d" using d by simp
  obtain s where s: "fl (sqrt d) = Num s" and sd: "sqrt d * (1 - u) \<le> s" "s \<le> sqrt d * (1 + u)"
    using fl_bounds [OF sqrt_range [OF lo hi]] unfolding u_def by blast
  have "0 < sqrt d * (1 - u)" using r u by simp
  then have s0: "0 < s" using sd(1) by linarith
  have lo': "0 \<le> sqrt d * (1 - u)" using r u by simp
  have "(sqrt d * (1 - u)) * (sqrt d * (1 - u)) \<le> s * s"
    using sd(1) lo' by (intro mult_mono) simp_all
  then have ss1: "d * (1 - u)\<^sup>2 \<le> s * s"
    using d by (simp add: power2_eq_square algebra_simps)
  have "s * s \<le> (sqrt d * (1 + u)) * (sqrt d * (1 + u))"
    using sd(2) s0 by (intro mult_mono) simp_all
  then have ss2: "s * s \<le> d * (1 + u)\<^sup>2"
    using d by (simp add: power2_eq_square algebra_simps)
  have ss0: "0 < s * s" using s0 by simp
  have c1: "1 / 2 \<le> (1 - u)\<^sup>2" "(1 + u)\<^sup>2 \<le> 2"
    by (simp_all add: u_def power2_eq_square field_simps)
  have "1 / 2 ^ 1022 = (1 / 2 ^ 1021) * (1 / 2 :: real)" by simp
  also have "\<dots> \<le> d * (1 - u)\<^sup>2"
    using lo c1(1) by (intro mult_mono) simp_all
  finally have r1: "1 / 2 ^ 1022 \<le> s * s" using ss1 by linarith
  have "d * (1 + u)\<^sup>2 \<le> 2 ^ 1022 * 2"
    using hi c1(2) d by (intro mult_mono) simp_all
  also have "\<dots> = (2::real) ^ 1023" by simp
  finally have r2: "s * s \<le> 2 ^ 1023" using ss2 by linarith
  obtain p where p: "fl (s * s) = Num p" and pb: "s * s * (1 - u) \<le> p" "p \<le> s * s * (1 + u)"
    using fl_bounds [OF r1 r2] unfolding u_def by blast
  have p1: "d * (1 - u) ^ 3 \<le> p"
  proof -
    have "d * (1 - u)\<^sup>2 * (1 - u) \<le> s * s * (1 - u)"
      using ss1 u by (intro mult_right_mono) simp_all
    then show ?thesis using pb(1) by (simp add: power3_eq_cube power2_eq_square algebra_simps)
  qed
  have p2: "p \<le> d * (1 + u) ^ 3"
  proof -
    have "s * s * (1 + u) \<le> d * (1 + u)\<^sup>2 * (1 + u)"
      using ss2 u by (intro mult_right_mono) simp_all
    then show ?thesis using pb(2) by (simp add: power3_eq_cube power2_eq_square algebra_simps)
  qed
  have lo3: "0 < d * (1 - u) ^ 3" using d u by simp
  then have p0: "0 < p" using p1 by linarith
  have q1: "d / p \<le> 1 / (1 - u) ^ 3"
  proof -
    have "d / p \<le> d / (d * (1 - u) ^ 3)"
      using p1 lo3 d by (intro divide_left_mono) simp_all
    then show ?thesis using d by simp
  qed
  have q2: "1 / (1 + u) ^ 3 \<le> d / p"
  proof -
    have "d / (d * (1 + u) ^ 3) \<le> d / p"
      using p2 p0 d u by (intro divide_left_mono) simp_all
    then show ?thesis using d by simp
  qed
  have c3: "1 / 2 ^ 1022 \<le> 1 / (1 + u) ^ 3" "1 / (1 - u) ^ 3 \<le> (2::real) ^ 1023"
    by (simp_all add: u_def power3_eq_cube field_simps)
  have q3: "1 / 2 ^ 1022 \<le> d / p" "d / p \<le> 2 ^ 1023"
    using q1 q2 c3 by linarith+
  obtain t where t: "fl (d / p) = Num t" and qb: "d / p * (1 - u) \<le> t" "t \<le> d / p * (1 + u)"
    using fl_bounds [OF q3] unfolding u_def by blast
  have up: "t \<le> 1 / (1 - u) ^ 3 * (1 + u)"
  proof -
    have "d / p * (1 + u) \<le> 1 / (1 - u) ^ 3 * (1 + u)"
      using q1 u by (intro mult_right_mono) simp_all
    then show ?thesis using qb(2) by linarith
  qed
  have dn: "1 / (1 + u) ^ 3 * (1 - u) \<le> t"
  proof -
    have "1 / (1 + u) ^ 3 * (1 - u) \<le> d / p * (1 - u)"
      using q2 u by (intro mult_right_mono) simp_all
    then show ?thesis using qb(1) by linarith
  qed
  have n1: "1 / (1 - u) ^ 3 * (1 + u) \<le> 1 + 1 / 2 ^ 50"
    unfolding u_def by (rule bound_upper)
  have n2: "1 - 1 / 2 ^ 50 \<le> 1 / (1 + u) ^ 3 * (1 - u)"
    unfolding u_def by (rule bound_lower)
  have "t \<le> 1 + 1 / 2 ^ 50" "1 - 1 / 2 ^ 50 \<le> t"
    using up dn n1 n2 by linarith+
  then have "\<bar>t - 1\<bar> \<le> 1 / 2 ^ 50"
    by linarith
  then show ?thesis using s s0 p p0 t by blast
qed

lemma cosineSim_self:
  assumes "dot v v = Num d" and "1 / 2 ^ 1021 \<le> d" and "d \<le> 2 ^ 1022"
  shows "\<exists>r. cosineSim v v = Num r \<and> \<bar>r - 1\<bar> \<le> 1 / 2 ^ 50"
proof -
  obtain n p r where n: "fl (sqrt d) = Num n" "0 < n" and p: "fl (n * n) = Num p" "0 < p"
    and r: "fl (d / p) = Num r" "\<bar>r - 1\<bar> \<le> 1 / 2 ^ 50"
    using self_similarity_bound [OF assms(2,3)] by blast
  have d: "0 < d" using assms(2) by (rule less_le_trans [rotated]) simp
  have "norm' v = Num n" using d n(1) by (simp add: norm'_def assms(1))
  then have "cosineSim v v = Num r"
    using n(2) p r(1) by (simp add: cosineSim_def Let_def assms(1))
  then show ?thesis using r(2) by blast
qed

subsection \<open>The squared norm of a vector of moderate entries\<close>

lemma round_even_ge_int: "real_of_int k \<le> y \<Longrightarrow> k \<le> round_even y"
proof -
  assume "real_of_int k \<le> y"
  then have "k \<le> \<lfloor>y\<rfloor>" by linarith
  then show ?thesis unfolding round_even_def Let_def by auto
qed

text \<open>A result of magnitude at most \<open>2 ^ 1023\<close> does not overflow.\<close>

lemma fl_finite:
  assumes "\<bar>x\<bar> \<le> 2 ^ 1023"
  shows "\<exists>y. fl x = Num y \<and> \<bar>y - x\<bar> \<le> \<bar>x\<bar> / 2 ^ 53 + 1 / 2 ^ 1075"
proof (cases "x = 0")
  case True
  then show ?thesis by (simp add: fl_0)
next
  case False
  have "\<bar>rounded x - x\<bar> \<le> quantum x / 2" by (rule rounded_near)
  also have "\<dots> \<le> (\<bar>x\<bar> / 2 ^ 52 + 1 / 2 ^ 1074) / 2"
    using quantum_le [OF False] by simp
  finally have err: "\<bar>rounded x - x\<bar> \<le> \<bar>x\<bar> / 2 ^ 53 + 1 / 2 ^ 1075" by simp
  have "\<bar>rounded x\<bar> \<le> \<bar>x\<bar> + \<bar>x\<bar> / 2 ^ 53 + 1 / 2 ^ 1075" using err by linarith
  also have "\<dots> \<le> 2 ^ 1023 + 2 ^ 1023 / 2 ^ 53 + 1 / 2 ^ 1075"
    using assms by (intro add_mono divide_right_mono) simp_all
  also have "\<dots> < (2::real) ^ 1024" by simp
  finally have "\<not> 2 ^ 1024 \<le> \<bar>rounded x\<bar>" by simp
  then have "fl x = Num (rounded x)" using False by (simp add: fl_alt)
  then show ?thesis using err by blast
qed

text \<open>Rounding is monotone at a double: a result that is not below a double is not
  rounded below it.\<close>

lemma fl_mono_double:
  assumes s: "double s" "0 \<le> s" and z: "s \<le> z" and y: "fl z = Num y"
  shows "s \<le> y"
proof (cases "s = 0")
  case True
  have "\<not> negative (fl z)" using s(2) z by (intro fl_not_negative) simp
  then show ?thesis using True y by (simp add: negative_def)
next
  case False
  then have s0: "0 < s" and z0: "0 < z" "z \<noteq> 0" using s(2) z by simp_all
  define es where "es = \<lfloor>log 2 \<bar>s\<bar>\<rfloor>"
  define ez where "ez = \<lfloor>log 2 \<bar>z\<bar>\<rfloor>"
  define ms where "ms = max (es - 52) (- 1074)"
  define mz where "mz = max (ez - 52) (- 1074)"
  have "log 2 \<bar>s\<bar> \<le> log 2 \<bar>z\<bar>" using s0 z by simp
  then have e: "es \<le> ez" unfolding es_def ez_def by (rule floor_mono)
  then have m: "ms \<le> mz" unfolding ms_def mz_def by simp
  have qs: "quantum s = 2 powi ms" by (simp add: quantum_def es_def ms_def)
  have qz: "quantum z = 2 powi mz" by (simp add: quantum_def ez_def mz_def)
  have yz: "y = rounded z" using y z0 by (simp add: fl_alt split: if_splits)
  have "rounded s = s" using s(1) False unfolding double_def by (simp add: fl_alt split: if_splits)
  then have sN: "s = real_of_int (round_even (s / 2 powi ms)) * 2 powi ms"
    by (simp add: rounded_def qs)
  define N where "N = round_even (s / 2 powi ms)"
  have sN': "s = real_of_int N * 2 powi ms" using sN by (simp add: N_def)
  show ?thesis
  proof (cases "mz = ms")
    case True
    have "real_of_int N = s / 2 powi mz" using sN' True by simp
    also have "\<dots> \<le> z / 2 powi mz" using z by (intro divide_right_mono) simp_all
    finally have "N \<le> round_even (z / 2 powi mz)" by (rule round_even_ge_int)
    then have "real_of_int N \<le> real_of_int (round_even (z / 2 powi mz))" by simp
    then have "real_of_int N * 2 powi mz \<le> real_of_int (round_even (z / 2 powi mz)) * 2 powi mz"
      by (intro mult_right_mono) simp_all
    then show ?thesis using sN' True by (simp add: yz rounded_def qz)
  next
    case False
    then have lt: "ms < mz" using m by simp
    then have mz: "mz = ez - 52" unfolding ms_def mz_def by linarith
    have elt: "es < ez" using lt e unfolding ms_def mz_def by linarith
    have "2 powi ez \<le> \<bar>z\<bar>" unfolding ez_def by (rule expo_bounds(1) [OF z0(2)])
    then have ez: "2 powi ez \<le> z" using z0 by simp
    have "(2::real) powi (52 + (ez - 52)) = 2 powi 52 * 2 powi (ez - 52)"
      by (rule power_int_add) simp
    then have split: "(2::real) powi ez = real_of_int (2 ^ 52) * 2 powi mz"
      unfolding mz by simp
    have "real_of_int (2 ^ 52) = 2 powi ez / 2 powi mz" using split by simp
    also have "\<dots> \<le> z / 2 powi mz" using ez by (intro divide_right_mono) simp_all
    finally have "2 ^ 52 \<le> round_even (z / 2 powi mz)" by (rule round_even_ge_int)
    then have "real_of_int (2 ^ 52) \<le> real_of_int (round_even (z / 2 powi mz))"
      by (simp only: of_int_le_iff)
    then have "real_of_int (2 ^ 52) * 2 powi mz \<le> real_of_int (round_even (z / 2 powi mz)) * 2 powi mz"
      by (intro mult_right_mono) simp_all
    then have "2 powi ez \<le> y" unfolding split [symmetric] by (simp add: yz rounded_def qz)
    moreover have "\<bar>s\<bar> < 2 powi (es + 1)" unfolding es_def
      using expo_bounds(2) [of s] s0 by simp
    moreover have "(2::real) powi (es + 1) \<le> 2 powi ez"
      using elt by (intro power_int_increasing) simp_all
    ultimately show ?thesis using s0 by simp
  qed
qed

lemma dot_loop_self_range:
  fixes k :: nat
  assumes "double s" and "0 \<le> s" and "s \<le> real k * 2 ^ 1001"
    and "\<forall>x\<in>set a. \<exists>r. x = Num r \<and> \<bar>r\<bar> \<le> 2 ^ 500"
    and "k + length a \<le> 2 ^ 20"
  shows "\<exists>d. dot_loop (Num s) a a = Num d \<and> double d \<and> s \<le> d
           \<and> d \<le> real (k + length a) * 2 ^ 1001
           \<and> ((\<exists>x\<in>set a. \<exists>r. x = Num r \<and> 1 / 2 ^ 500 \<le> \<bar>r\<bar>) \<longrightarrow> 1 / 2 ^ 1002 \<le> d)"
  using assms
proof (induction a arbitrary: s k)
  case Nil
  then show ?case by simp
next
  case (Cons x a)
  obtain r where x: "x = Num r" and r: "\<bar>r\<bar> \<le> 2 ^ 500"
    using Cons.prems(4) by auto
  have k: "real k \<le> 2 ^ 20 - 1"
  proof -
    have "k + 1 \<le> 2 ^ 20" using Cons.prems(5) by simp
    then have "real (k + 1) \<le> real (2 ^ 20)" by (simp only: of_nat_le_iff)
    then show ?thesis by simp
  qed
  have rr: "0 \<le> r * r" "r * r \<le> 2 ^ 1000"
  proof -
    show "0 \<le> r * r" by simp
    have "\<bar>r\<bar> * \<bar>r\<bar> \<le> 2 ^ 500 * 2 ^ 500"
      using r by (intro mult_mono) simp_all
    then show "r * r \<le> 2 ^ 1000" by (simp add: abs_mult_self_eq)
  qed
  have "\<bar>r * r\<bar> \<le> 2 ^ 1023"
  proof -
    have "(2::real) ^ 1000 \<le> 2 ^ 1023" by simp
    then show ?thesis using rr by linarith
  qed
  then obtain t where t: "fl (r * r) = Num t"
    and te: "\<bar>t - r * r\<bar> \<le> \<bar>r * r\<bar> / 2 ^ 53 + 1 / 2 ^ 1075"
    using fl_finite by blast
  have dt: "double t" using t by (rule fl_double)
  have t0: "0 \<le> t"
    using fl_not_negative [OF rr(1)] t by (simp add: negative_def)
  have tu: "t \<le> 2 ^ 1000 + 2 ^ 1000 / 2 ^ 53 + 1 / 2 ^ 1075"
  proof -
    have "r * r / 2 ^ 53 \<le> 2 ^ 1000 / 2 ^ 53"
      using rr(2) by (intro divide_right_mono) simp_all
    then show ?thesis using te rr by linarith
  qed
  have su: "s \<le> (2 ^ 20 - 1) * 2 ^ 1001"
  proof -
    have "real k * 2 ^ 1001 \<le> (2 ^ 20 - 1) * 2 ^ 1001"
      using k by (intro mult_right_mono) simp_all
    then show ?thesis using Cons.prems(3) by linarith
  qed
  have st: "\<bar>s + t\<bar> \<le> 2 ^ 1023"
    using su tu Cons.prems(2) t0 by simp
  then obtain s' where s': "fl (s + t) = Num s'"
    and se: "\<bar>s' - (s + t)\<bar> \<le> \<bar>s + t\<bar> / 2 ^ 53 + 1 / 2 ^ 1075"
    using fl_finite by blast
  have ds': "double s'" using s' by (rule fl_double)
  have ss': "s \<le> s'"
    using Cons.prems(1,2) _ s' by (rule fl_mono_double) (use t0 in simp)
  have ts': "t \<le> s'"
    using dt t0 _ s' by (rule fl_mono_double) (use Cons.prems(2) in simp)
  have s'0: "0 \<le> s'" using ss' Cons.prems(2) by linarith
  have up: "s' \<le> real (k + 1) * 2 ^ 1001"
  proof -
    have a: "\<bar>s + t\<bar> = s + t" using Cons.prems(2) t0 by simp
    have "(s + t) / 2 ^ 53 \<le> 2 ^ 1023 / 2 ^ 53"
      using st a by (intro divide_right_mono) simp_all
    then have "s' \<le> s + t + 2 ^ 1023 / 2 ^ 53 + 1 / 2 ^ 1075"
      using se a by linarith
    also have "\<dots> \<le> real k * 2 ^ 1001 + (2 ^ 1000 + 2 ^ 1000 / 2 ^ 53 + 1 / 2 ^ 1075)
                     + 2 ^ 1023 / 2 ^ 53 + 1 / 2 ^ 1075"
      using Cons.prems(3) tu by linarith
    also have "\<dots> \<le> real k * 2 ^ 1001 + 2 ^ 1001"
      by simp
    also have "\<dots> = real (k + 1) * 2 ^ 1001"
      by (simp add: algebra_simps)
    finally show ?thesis .
  qed
  have rest: "\<forall>x\<in>set a. \<exists>r. x = Num r \<and> \<bar>r\<bar> \<le> 2 ^ 500"
    using Cons.prems(4) by simp
  have len: "(k + 1) + length a \<le> 2 ^ 20"
    using Cons.prems(5) by simp
  obtain d where d: "dot_loop (Num s') a a = Num d" "double d" "s' \<le> d"
      "d \<le> real ((k + 1) + length a) * 2 ^ 1001"
      "(\<exists>x\<in>set a. \<exists>r. x = Num r \<and> 1 / 2 ^ 500 \<le> \<bar>r\<bar>) \<longrightarrow> 1 / 2 ^ 1002 \<le> d"
    using Cons.IH [OF ds' s'0 up rest len] by blast
  have step: "dot_loop (Num s) (x # a) (x # a) = Num d"
    using d(1) by (simp add: x t s')
  have lower: "1 / 2 ^ 1002 \<le> d"
    if big: "\<exists>x'\<in>set (x # a). \<exists>r'. x' = Num r' \<and> 1 / 2 ^ 500 \<le> \<bar>r'\<bar>"
  proof (cases "1 / 2 ^ 500 \<le> \<bar>r\<bar>")
    case True
    have "(1 / 2 ^ 500) * (1 / 2 ^ 500) \<le> \<bar>r\<bar> * \<bar>r\<bar>"
      using True by (intro mult_mono) simp_all
    then have lo: "1 / 2 ^ 1000 \<le> r * r" by (simp add: abs_mult_self_eq)
    have h: "r * r / 2 ^ 53 \<le> r * r / 2" using rr(1) by (simp add: field_simps)
    have "\<bar>r * r\<bar> = r * r" by simp
    then have "r * r - (r * r / 2 ^ 53 + 1 / 2 ^ 1075) \<le> t" using te by linarith
    then have tl: "r * r / 2 - 1 / 2 ^ 1075 \<le> t" using h by linarith
    have half: "1 / 2 ^ 1000 / 2 \<le> r * r / 2"
      using lo by (intro divide_right_mono) simp_all
    have "(1::real) / 2 ^ 1002 \<le> 1 / 2 ^ 1000 / 2 - 1 / 2 ^ 1075" by simp
    also have "\<dots> \<le> r * r / 2 - 1 / 2 ^ 1075" using half by (rule diff_right_mono)
    also have "\<dots> \<le> t" by (rule tl)
    finally have "1 / 2 ^ 1002 \<le> t" .
    then show ?thesis using ts' d(3) by linarith
  next
    case False
    then have "\<exists>x\<in>set a. \<exists>r. x = Num r \<and> 1 / 2 ^ 500 \<le> \<bar>r\<bar>"
      using big x by auto
    then show ?thesis using d(5) by blast
  qed
  have "d \<le> real (k + length (x # a)) * 2 ^ 1001"
    using d(4) by simp
  moreover have "s \<le> d" using ss' d(3) by linarith
  ultimately show ?case using step d(2) lower by blast
qed

lemma dot_self_range:
  assumes "length v \<le> 2 ^ 20"
    and "\<forall>x\<in>set v. \<exists>r. x = Num r \<and> \<bar>r\<bar> \<le> 2 ^ 500"
    and "\<exists>x\<in>set v. \<exists>r. x = Num r \<and> 1 / 2 ^ 500 \<le> \<bar>r\<bar>"
  shows "\<exists>d. dot v v = Num d \<and> 1 / 2 ^ 1021 \<le> d \<and> d \<le> 2 ^ 1022"
proof -
  have l: "0 + length v \<le> 2 ^ 20" using assms(1) by simp
  obtain d where d: "dot_loop (Num 0) v v = Num d" "d \<le> real (0 + length v) * 2 ^ 1001"
    "1 / 2 ^ 1002 \<le> d"
    using dot_loop_self_range [OF double_0 _ _ assms(2) l] assms(3) by auto
  have "real (length v) \<le> real (2 ^ 20)" using assms(1) by (simp only: of_nat_le_iff)
  then have "real (length v) * 2 ^ 1001 \<le> 2 ^ 20 * 2 ^ 1001"
    by (intro mult_right_mono) simp_all
  then have "d \<le> 2 ^ 1022" using d(2) by simp
  moreover have "(1::real) / 2 ^ 1021 \<le> 1 / 2 ^ 1002" by simp
  ultimately show ?thesis using d(1,3) by (auto simp: dot_def)
qed

lemma cosineSim_self_moderate:
  assumes "length v \<le> 2 ^ 20"
    and "\<forall>x\<in>set v. \<exists>r. x = Num r \<and> \<bar>r\<bar> \<le> 2 ^ 500"
    and "\<exists>x\<in>set v. \<exists>r. x = Num r \<and> 1 / 2 ^ 500 \<le> \<bar>r\<bar>"
  shows "\<exists>r. cosineSim v v = Num r \<and> \<bar>r - 1\<bar> \<le> 1 / 2 ^ 50"
proof -
  obtain d where "dot v v = Num d" "1 / 2 ^ 1021 \<le> d" "d \<le> 2 ^ 1022"
    using dot_self_range [OF assms] by blast
  then show ?thesis by (rule cosineSim_self)
qed

subsection \<open>Values of the similarity\<close>

lemma cosineSim_1_1: "cosineSim [Num 1] [Num 1] = Num 1"
  by (simp add: cosineSim_def norm'_def dot_def fl_1)

lemma cosineSim_1_m1: "cosineSim [Num 1] [Num (- 1)] = Num (- 1)"
  by (simp add: cosineSim_def norm'_def dot_def fl_1 fl_m1)

lemma cosineSim_1_0: "cosineSim [Num 1] [Num 0] = Num 0"
  by (simp add: cosineSim_def norm'_def dot_def fl_1 fl_0)

lemma cosineSim_10_10: "cosineSim [Num 1, Num 0] [Num 1, Num 0] = Num 1"
  by (simp add: cosineSim_def norm'_def dot_def fl_1 fl_0)

lemma cosineSim_10_1: "cosineSim [Num 1, Num 0] [Num 1] = NaN"
  by (simp add: cosineSim_def norm'_def dot_def fl_1 fl_0)

lemma cosineSim_1_10: "cosineSim [Num 1] [Num 1, Num 0] = Num 1"
  by (simp add: cosineSim_def norm'_def dot_def fl_1 fl_0)

subsection \<open>Rounded values for the vector \<open>[1, 1]\<close>\<close>

lemma sqrt2_lower: "6369051672525773 - 1/2 < sqrt 2 * 2 ^ 52"
proof -
  have "((6369051672525773 - 1/2) / 2 ^ 52)\<^sup>2 < (2::real)"
    by (simp add: power2_eq_square)
  then have "(6369051672525773 - 1/2) / 2 ^ 52 < sqrt 2"
    by (rule real_less_rsqrt)
  then show ?thesis by (simp add: field_simps)
qed

lemma sqrt2_upper: "sqrt 2 * 2 ^ 52 < 6369051672525773 + 1/2"
proof -
  have "(2::real) < ((6369051672525773 + 1/2) / 2 ^ 52)\<^sup>2"
    by (simp add: power2_eq_square)
  then have "sqrt 2 < (6369051672525773 + 1/2) / 2 ^ 52"
    by (intro real_less_lsqrt) simp_all
  then show ?thesis by (simp add: field_simps)
qed

lemma fl_sqrt2: "fl (sqrt 2) = Num (6369051672525773 / 2 ^ 52)"
proof -
  have 1: "sqrt 2 \<noteq> 0" by simp
  have 2: "2 powi 0 \<le> \<bar>sqrt 2\<bar>" by simp
  have 3: "\<bar>sqrt 2\<bar> < 2 powi (0 + 1)" using sqrt2_less_2 by simp
  have "\<bar>sqrt 2 * 2 ^ 52 - 6369051672525773\<bar> < 1/2"
    using sqrt2_lower sqrt2_upper by linarith
  then have 4: "\<bar>sqrt 2 / 2 powi (max (0 - 52) (- 1074)) - of_int 6369051672525773\<bar> < 1/2"
    by (simp add: power_int_minus)
  have 5: "\<bar>real_of_int 6369051672525773 * 2 powi (max (0 - 52) (- 1074))\<bar> < 2 ^ 1024"
    by (simp add: power_int_minus)
  show ?thesis
    using fl_eval [OF 1 2 3 4 5] by (simp add: power_int_minus)
qed

lemma fl_square:
  "fl (6369051672525773 / 2 ^ 52 * (6369051672525773 / 2 ^ 52)) = Num (4503599627370497 / 2 ^ 51)"
  using fl_eval [of "6369051672525773 / 2 ^ 52 * (6369051672525773 / 2 ^ 52)" 1 4503599627370497]
  by (simp add: power_int_minus abs_less_iff)

lemma fl_quot: "fl (2 / (4503599627370497 / 2 ^ 51)) = Num (4503599627370495 / 2 ^ 52)"
  using fl_eval [of "2 / (4503599627370497 / 2 ^ 51)" "-1" 9007199254740990]
  by (simp add: power_int_minus abs_less_iff)

lemma dot_11: "dot [Num 1, Num 1] [Num 1, Num 1] = Num 2"
  by (simp add: dot_def fl_1 fl_2)

lemma norm'_11: "norm' [Num 1, Num 1] = Num (6369051672525773 / 2 ^ 52)"
  by (simp add: norm'_def dot_11 fl_sqrt2)

lemma cosineSim_11: "cosineSim [Num 1, Num 1] [Num 1, Num 1] = Num (4503599627370495 / 2 ^ 52)"
proof -
  have "norm' [Num 1, Num 1] \<noteq> Num 0"
    by (simp add: norm'_11)
  then have "cosineSim [Num 1, Num 1] [Num 1, Num 1] =
      ndiv (Num 2) (nmul (Num (6369051672525773 / 2 ^ 52)) (Num (6369051672525773 / 2 ^ 52)))"
    by (simp only: cosineSim_def Let_def norm'_11 dot_11 if_False simp_thms)
  also have "\<dots> = ndiv (Num 2) (Num (4503599627370497 / 2 ^ 51))"
    by (simp only: nmul.simps fl_square)
  also have "\<dots> = fl (2 / (4503599627370497 / 2 ^ 51))"
    by simp
  also have "\<dots> = Num (4503599627370495 / 2 ^ 52)"
    by (simp only: fl_quot)
  finally show ?thesis .
qed

subsection \<open>Underflow and overflow in the norm\<close>

lemma fl_tiny: "fl (1 / 2 ^ 1200) = Num 0"
  using fl_eval [of "1 / 2 ^ 1200" "- 1200" 0] by (simp add: power_int_minus)

lemma cosineSim_underflow:
  assumes "nmul x x = Num 0"
  shows "cosineSim [x] [x] = Num 0"
  by (simp add: cosineSim_def norm'_def dot_def assms fl_0)

lemma cosineSim_overflow:
  assumes "nmul x x = PosInf"
  shows "cosineSim [x] [x] = NaN"
  by (simp add: cosineSim_def norm'_def dot_def assms)

lemma cosineSim_tiny: "cosineSim [Num (1 / 2 ^ 600)] [Num (1 / 2 ^ 600)] = Num 0"
proof -
  have "(1 / 2 ^ 600) * (1 / 2 ^ 600) = (1 / 2 ^ 1200 :: real)" by simp
  then have "nmul (Num (1 / 2 ^ 600)) (Num (1 / 2 ^ 600)) = Num 0"
    by (simp only: nmul.simps fl_tiny)
  then show ?thesis by (rule cosineSim_underflow)
qed

lemma cosineSim_huge: "cosineSim [Num (2 ^ 600)] [Num (2 ^ 600)] = NaN"
proof -
  have "2 ^ 600 * 2 ^ 600 = (2 ^ 1200 :: real)" by simp
  moreover have "fl (2 ^ 1200) = PosInf" by (rule fl_overflow) simp
  ultimately have "nmul (Num (2 ^ 600)) (Num (2 ^ 600)) = PosInf"
    by (simp only: nmul.simps)
  then show ?thesis by (rule cosineSim_overflow)
qed

section \<open>Facts about sorting and slicing\<close>

lemma length_js_insert: "length (js_insert cmp x xs) = Suc (length xs)"
  by (induction xs) auto

lemma length_js_sort: "length (js_sort cmp xs) = length xs"
  by (induction xs) (auto simp: length_js_insert)

lemma mset_js_insert: "mset (js_insert cmp x xs) = add_mset x (mset xs)"
  by (induction xs) auto

lemma mset_js_sort: "mset (js_sort cmp xs) = mset xs"
  by (induction xs) (auto simp: mset_js_insert)

lemma set_js_sort: "set (js_sort cmp xs) = set xs"
  using mset_js_sort [of cmp xs] by (metis set_mset_mset)

lemma conforming_length: "conforming srt \<Longrightarrow> length (srt cmp xs) = length xs"
  unfolding conforming_def by (metis size_mset)

lemma conforming_set: "conforming srt \<Longrightarrow> set (srt cmp xs) = set xs"
  unfolding conforming_def by (metis set_mset_mset)

lemma slice0_take: "0 \<le> k \<Longrightarrow> slice0 k xs = take (nat k) xs"
  by (simp add: slice0_def)

lemma slice0_length: "0 \<le> k \<Longrightarrow> int (length (slice0 k xs)) = min k (int (length xs))"
  by (auto simp: slice0_def)

subsection \<open>The comparator on finite weighted scores\<close>

lemma by_weighted_desc_sign:
  assumes "weighted a = Num x" and "weighted b = Num y" and "double x" and "double y"
  shows "positive (by_weighted_desc a b) \<longleftrightarrow> x < y"
    and "negative (by_weighted_desc a b) \<longleftrightarrow> y < x"
    and "by_weighted_desc a b = Num 0 \<longleftrightarrow> x = y"
    and "by_weighted_desc a b \<noteq> NaN"
  using nsub_sign [OF double_grid [OF assms(3)] double_grid [OF assms(4)]] assms(1,2)
  by (simp_all add: by_weighted_desc_def)

lemma consistent_by_weighted_desc:
  assumes fw: "finite_weights xs"
    and dw: "\<forall>e\<in>set xs. \<forall>x. weighted e = Num x \<longrightarrow> double x"
  shows "consistent by_weighted_desc (set xs)"
proof -
  have w: "\<exists>x. weighted e = Num x \<and> double x" if "e \<in> set xs" for e
    using fw dw that unfolding finite_weights_def by blast
  have s: "(positive (by_weighted_desc a b) \<longleftrightarrow> wreal a < wreal b)
         \<and> (negative (by_weighted_desc a b) \<longleftrightarrow> wreal b < wreal a)
         \<and> (by_weighted_desc a b = Num 0 \<longleftrightarrow> wreal a = wreal b)
         \<and> by_weighted_desc a b \<noteq> NaN"
    if ab: "a \<in> set xs" "b \<in> set xs" for a b
  proof -
    obtain x y where "weighted a = Num x" "double x" "weighted b = Num y" "double y"
      using w [OF ab(1)] w [OF ab(2)] by blast
    then show ?thesis
      using by_weighted_desc_sign [of a x b y] by (simp add: wreal_def)
  qed
  show ?thesis
    unfolding consistent_def
  proof (intro conjI ballI impI)
    fix a b assume "a \<in> set xs" "b \<in> set xs"
    then show "by_weighted_desc a b \<noteq> NaN" using s by blast
  next
    fix a assume "a \<in> set xs"
    then show "by_weighted_desc a a = Num 0" using s by blast
  next
    fix a b assume "a \<in> set xs" "b \<in> set xs" "by_weighted_desc a b = Num 0"
    then show "by_weighted_desc b a = Num 0" using s by metis
  next
    fix a b c
    assume "a \<in> set xs" "b \<in> set xs" "c \<in> set xs"
      "by_weighted_desc a b = Num 0 \<and> by_weighted_desc b c = Num 0"
    then show "by_weighted_desc a c = Num 0" using s by metis
  next
    fix a b c
    assume h: "a \<in> set xs" "b \<in> set xs" "c \<in> set xs"
      "negative (by_weighted_desc a b) \<and> negative (by_weighted_desc b c)"
    then have "wreal b < wreal a" "wreal c < wreal b" using s by blast+
    then have "wreal c < wreal a" by linarith
    then show "negative (by_weighted_desc a c)" using s h(1,3) by blast
  next
    fix a b c
    assume h: "a \<in> set xs" "b \<in> set xs" "c \<in> set xs"
      "positive (by_weighted_desc a b) \<and> positive (by_weighted_desc b c)"
    then have "wreal a < wreal b" "wreal b < wreal c" using s by blast+
    then have "wreal a < wreal c" by linarith
    then show "positive (by_weighted_desc a c)" using s h(1,3) by blast
  qed
qed

subsection \<open>The insertion sort conforms\<close>

lemma sign_cases: "v \<noteq> NaN \<Longrightarrow> positive v \<or> negative v \<or> v = Num 0"
  by (cases v) (auto simp: positive_def negative_def)

lemma consistent_asym:
  assumes c: "consistent cmp S" and S: "a \<in> S" "b \<in> S" and p: "positive (cmp a b)"
  shows "\<not> positive (cmp b a)"
proof
  assume "positive (cmp b a)"
  then have "positive (cmp a a)"
    using c S p unfolding consistent_def by blast
  moreover have "cmp a a = Num 0"
    using c S unfolding consistent_def by blast
  ultimately show False by (simp add: positive_def)
qed

lemma consistent_neg_asym:
  assumes c: "consistent cmp S" and S: "a \<in> S" "b \<in> S" and p: "negative (cmp a b)"
  shows "\<not> negative (cmp b a)"
proof
  assume "negative (cmp b a)"
  then have "negative (cmp a a)"
    using c S p unfolding consistent_def by blast
  moreover have "cmp a a = Num 0"
    using c S unfolding consistent_def by blast
  ultimately show False by (simp add: negative_def)
qed

lemma consistent_flip:
  assumes c: "consistent cmp S" and S: "a \<in> S" "b \<in> S" and n: "negative (cmp a b)"
  shows "positive (cmp b a)"
proof -
  have "cmp b a \<noteq> NaN" using c S unfolding consistent_def by blast
  then consider "positive (cmp b a)" | "negative (cmp b a)" | "cmp b a = Num 0"
    using sign_cases by blast
  then show ?thesis
  proof cases
    case 2
    then show ?thesis using consistent_neg_asym [OF c S n] by simp
  next
    case 3
    then have "cmp a b = Num 0" using c S unfolding consistent_def by blast
    then show ?thesis using n by (simp add: negative_def)
  qed
qed

lemma consistent_le_trans:
  assumes c: "consistent cmp S" and S: "a \<in> S" "b \<in> S" "d \<in> S"
    and ab: "\<not> positive (cmp a b)" and bd: "\<not> positive (cmp b d)"
  shows "\<not> positive (cmp a d)"
proof
  assume ad: "positive (cmp a d)"
  have nn: "cmp a b \<noteq> NaN" "cmp b d \<noteq> NaN"
    using c S unfolding consistent_def by blast+
  have zero_trans: "cmp x z = Num 0" if "cmp x y = Num 0" "cmp y z = Num 0"
    "x \<in> S" "y \<in> S" "z \<in> S" for x y z
    using c that unfolding consistent_def by blast
  have zero_sym: "cmp y x = Num 0" if "cmp x y = Num 0" "x \<in> S" "y \<in> S" for x y
    using c that unfolding consistent_def by blast
  have pos_trans: "positive (cmp x z)" if "positive (cmp x y)" "positive (cmp y z)"
    "x \<in> S" "y \<in> S" "z \<in> S" for x y z
    using c that unfolding consistent_def by blast
  have neg_trans: "negative (cmp x z)" if "negative (cmp x y)" "negative (cmp y z)"
    "x \<in> S" "y \<in> S" "z \<in> S" for x y z
    using c that unfolding consistent_def by blast
  consider "cmp a b = Num 0" "cmp b d = Num 0"
    | "negative (cmp a b)" "negative (cmp b d)"
    | "cmp a b = Num 0" "negative (cmp b d)"
    | "negative (cmp a b)" "cmp b d = Num 0"
    using sign_cases [OF nn(1)] sign_cases [OF nn(2)] ab bd by blast
  then show False
  proof cases
    case 1
    then have "cmp a d = Num 0" using zero_trans S by blast
    then show ?thesis using ad by (simp add: positive_def)
  next
    case 2
    then have "negative (cmp a d)" using neg_trans S by blast
    then show ?thesis using ad positive_not_negative by blast
  next
    case 3
    have "positive (cmp d b)" using consistent_flip [OF c S(2,3) 3(2)] .
    then have "positive (cmp a b)" using pos_trans [OF ad _ S(1,3,2)] by blast
    then show ?thesis using ab by simp
  next
    case 4
    have "positive (cmp b a)" using consistent_flip [OF c S(1,2) 4(1)] .
    then have "positive (cmp b d)" using pos_trans [OF _ ad S(2,1,3)] by blast
    then show ?thesis using bd by simp
  qed
qed

lemma set_js_insert: "set (js_insert cmp x ys) = insert x (set ys)"
  using mset_js_insert [of cmp x ys] by (metis set_mset_mset set_mset_add_mset_insert)

lemma js_insert_sorted:
  assumes c: "consistent cmp S" and x: "x \<in> S" and ys: "set ys \<subseteq> S"
    and s: "sorted_wrt (\<lambda>a b. \<not> positive (cmp a b)) ys"
  shows "sorted_wrt (\<lambda>a b. \<not> positive (cmp a b)) (js_insert cmp x ys)"
  using ys s
proof (induction ys)
  case Nil
  then show ?case by simp
next
  case (Cons y ys)
  have yS: "y \<in> S" and ysS: "set ys \<subseteq> S" using Cons.prems(1) by simp_all
  have tail: "sorted_wrt (\<lambda>a b. \<not> positive (cmp a b)) ys"
    and head: "\<forall>z\<in>set ys. \<not> positive (cmp y z)"
    using Cons.prems(2) by simp_all
  show ?case
  proof (cases "positive (cmp x y)")
    case True
    have "\<not> positive (cmp y x)" using consistent_asym [OF c x yS True] .
    then have "\<forall>z\<in>set (js_insert cmp x ys). \<not> positive (cmp y z)"
      using head by (simp add: set_js_insert)
    then show ?thesis using True Cons.IH [OF ysS tail] by simp
  next
    case False
    have "\<not> positive (cmp x z)" if "z \<in> set ys" for z
    proof -
      have "z \<in> S" using that ysS by blast
      moreover have "\<not> positive (cmp y z)" using head that by blast
      ultimately show ?thesis using consistent_le_trans [OF c x yS _ False] by blast
    qed
    then show ?thesis using False Cons.prems(2) by simp
  qed
qed

lemma js_sort_sorted:
  assumes "consistent cmp S" and "set xs \<subseteq> S"
  shows "sorted_wrt (\<lambda>a b. \<not> positive (cmp a b)) (js_sort cmp xs)"
  using assms(2)
proof (induction xs)
  case Nil
  then show ?case by simp
next
  case (Cons x xs)
  then have "x \<in> S" "set (js_sort cmp xs) \<subseteq> S"
    by (simp_all add: set_js_sort)
  then show ?case
    using Cons js_insert_sorted [OF assms(1)] by simp
qed

lemma js_insert_stable:
  assumes c: "consistent cmp S" and x: "x \<in> S" and ys: "set ys \<subseteq> S" and k: "k \<in> S"
  shows "filter (\<lambda>y. cmp k y = Num 0) (js_insert cmp x ys) =
         filter (\<lambda>y. cmp k y = Num 0) (x # ys)"
  using ys
proof (induction ys)
  case Nil
  then show ?case by simp
next
  case (Cons y ys)
  have yS: "y \<in> S" and ysS: "set ys \<subseteq> S" using Cons.prems by simp_all
  show ?case
  proof (cases "positive (cmp x y)")
    case True
    have "\<not> (cmp k x = Num 0 \<and> cmp k y = Num 0)"
    proof
      assume h: "cmp k x = Num 0 \<and> cmp k y = Num 0"
      then have "cmp x k = Num 0" using c k x unfolding consistent_def by blast
      then have "cmp x y = Num 0" using h c k x yS unfolding consistent_def by blast
      then show False using True by (simp add: positive_def)
    qed
    then show ?thesis using True Cons.IH [OF ysS] by auto
  next
    case False
    then show ?thesis by simp
  qed
qed

lemma js_sort_stable:
  assumes "consistent cmp S" and "set xs \<subseteq> S" and "k \<in> S"
  shows "filter (\<lambda>y. cmp k y = Num 0) (js_sort cmp xs) = filter (\<lambda>y. cmp k y = Num 0) xs"
  using assms(2)
proof (induction xs)
  case Nil
  then show ?case by simp
next
  case (Cons x xs)
  then have "x \<in> S" "set (js_sort cmp xs) \<subseteq> S" "set xs \<subseteq> S"
    by (simp_all add: set_js_sort)
  then show ?case
    using Cons.IH js_insert_stable [OF assms(1) _ _ assms(3), of x "js_sort cmp xs"] by simp
qed

lemma conforming_js_sort: "conforming js_sort"
  unfolding conforming_def
proof (intro allI conjI impI ballI)
  fix cmp :: "'a \<Rightarrow> 'a \<Rightarrow> jsnum" and xs
  show "mset (js_sort cmp xs) = mset xs" by (rule mset_js_sort)
  assume c: "consistent cmp (set xs)"
  show "sorted_wrt (\<lambda>a b. \<not> positive (cmp a b)) (js_sort cmp xs)"
    using c by (rule js_sort_sorted) simp
  fix x assume "x \<in> set xs"
  then show "filter (\<lambda>y. cmp x y = Num 0) (js_sort cmp xs) = filter (\<lambda>y. cmp x y = Num 0) xs"
    using c by (intro js_sort_stable [of cmp "set xs"]) simp_all
qed

text \<open>On entries whose weighted scores are finite doubles every conforming sort returns
  the list of the library's stable sort by descending weighted score.\<close>

lemma by_weighted_desc_wreal:
  assumes fw: "finite_weights xs"
    and dw: "\<forall>e\<in>set xs. \<forall>x. weighted e = Num x \<longrightarrow> double x"
    and ab: "a \<in> set xs" "b \<in> set xs"
  shows "positive (by_weighted_desc a b) \<longleftrightarrow> wreal a < wreal b"
    and "by_weighted_desc a b = Num 0 \<longleftrightarrow> wreal a = wreal b"
proof -
  obtain x y where "weighted a = Num x" "double x" "weighted b = Num y" "double y"
    using fw dw ab unfolding finite_weights_def by blast
  then show "positive (by_weighted_desc a b) \<longleftrightarrow> wreal a < wreal b"
    and "by_weighted_desc a b = Num 0 \<longleftrightarrow> wreal a = wreal b"
    using by_weighted_desc_sign [of a x b y] by (simp_all add: wreal_def)
qed

lemma conforming_sort_key:
  assumes cf: "conforming srt" and fw: "finite_weights xs"
    and dw: "\<forall>e\<in>set xs. \<forall>w. weighted e = Num w \<longrightarrow> double w"
  shows "srt by_weighted_desc xs = sort_key (\<lambda>e. - wreal e) xs"
proof -
  let ?ys = "srt by_weighted_desc xs"
  have c: "consistent by_weighted_desc (set xs)"
    using fw dw by (rule consistent_by_weighted_desc)
  have m: "mset ?ys = mset xs"
    using cf unfolding conforming_def by blast
  then have st: "set ?ys = set xs" by (metis set_mset_mset)
  have so: "sorted_wrt (\<lambda>a b. \<not> positive (by_weighted_desc a b)) ?ys"
    using cf c unfolding conforming_def by blast
  have stable: "filter (\<lambda>y. by_weighted_desc k y = Num 0) ?ys =
                filter (\<lambda>y. by_weighted_desc k y = Num 0) xs" if "k \<in> set xs" for k
    using cf c that unfolding conforming_def by blast
  have "sorted_wrt (\<lambda>a b. - wreal a \<le> - wreal b) ?ys"
  proof (rule sorted_wrt_mono_rel [OF _ so])
    fix a b assume "a \<in> set ?ys" "b \<in> set ?ys" "\<not> positive (by_weighted_desc a b)"
    then show "- wreal a \<le> - wreal b"
      using by_weighted_desc_wreal(1) [OF fw dw, of a b] st by simp
  qed
  then have 1: "sorted (map (\<lambda>e. - wreal e) ?ys)"
    by (simp add: sorted_map)
  have 2: "filter (\<lambda>x. - wreal k = - wreal x) ?ys = filter (\<lambda>x. - wreal k = - wreal x) xs"
    if k: "k \<in> set ?ys" for k
  proof -
    have kx: "k \<in> set xs" using k st by simp
    have "filter (\<lambda>x. - wreal k = - wreal x) ?ys = filter (\<lambda>y. by_weighted_desc k y = Num 0) ?ys"
      using by_weighted_desc_wreal(2) [OF fw dw kx] st by (intro filter_cong) auto
    also have "\<dots> = filter (\<lambda>y. by_weighted_desc k y = Num 0) xs"
      by (rule stable [OF kx])
    also have "\<dots> = filter (\<lambda>x. - wreal k = - wreal x) xs"
      using by_weighted_desc_wreal(2) [OF fw dw kx] by (intro filter_cong) auto
    finally show ?thesis .
  qed
  show ?thesis
    using properties_for_sort_key [OF m 2 1] by simp
qed

lemma js_sort_sort_key:
  assumes "finite_weights xs"
    and "\<forall>e\<in>set xs. \<forall>w. weighted e = Num w \<longrightarrow> double w"
  shows "js_sort by_weighted_desc xs = sort_key (\<lambda>e. - wreal e) xs"
  using conforming_js_sort assms by (rule conforming_sort_key)

lemma finite_weights_sort_key: "finite_weights xs \<Longrightarrow> finite_weights (sort_key f xs)"
  by (simp add: finite_weights_def)

lemma nle_wreal:
  assumes "finite_weights xs" and "a \<in> set xs" and "b \<in> set xs"
  shows "nle (weighted b) (weighted a) \<longleftrightarrow> wreal b \<le> wreal a"
    and "nlt (weighted a) (weighted b) \<longleftrightarrow> wreal a < wreal b"
    and "weighted a = weighted b \<longleftrightarrow> wreal a = wreal b"
proof -
  obtain x y where "weighted a = Num x" "weighted b = Num y"
    using assms unfolding finite_weights_def by blast
  then show "nle (weighted b) (weighted a) \<longleftrightarrow> wreal b \<le> wreal a"
    and "nlt (weighted a) (weighted b) \<longleftrightarrow> wreal a < wreal b"
    and "weighted a = weighted b \<longleftrightarrow> wreal a = wreal b"
    by (simp_all add: wreal_def)
qed

lemma sorted_desc:
  assumes "finite_weights xs"
  shows "sorted_wrt (\<lambda>a b. nle (weighted b) (weighted a)) (sort_key (\<lambda>e. - wreal e) xs)"
proof -
  let ?ys = "sort_key (\<lambda>e. - wreal e) xs"
  have "sorted (map (\<lambda>e. - wreal e) ?ys)"
    by (rule sorted_sort_key)
  then have s: "sorted_wrt (\<lambda>a b. wreal b \<le> wreal a) ?ys"
    by (simp add: sorted_map)
  show ?thesis
  proof (rule sorted_wrt_mono_rel [OF _ s])
    fix a b assume "a \<in> set ?ys" "b \<in> set ?ys" "wreal b \<le> wreal a"
    then show "nle (weighted b) (weighted a)"
      using nle_wreal(1) [OF finite_weights_sort_key [OF assms]] by blast
  qed
qed

lemma filter_weighted:
  assumes "finite_weights ys"
  shows "filter (\<lambda>e. weighted e = w) ys =
           (case w of Num r \<Rightarrow> filter (\<lambda>e. wreal e = r) ys | _ \<Rightarrow> [])"
proof (cases w)
  case (Num r)
  have "filter (\<lambda>e. weighted e = Num r) ys = filter (\<lambda>e. wreal e = r) ys"
    using assms by (intro filter_cong) (auto simp: finite_weights_def wreal_def)
  then show ?thesis using Num by simp
qed (use assms in \<open>auto simp: finite_weights_def filter_empty_conv\<close>)

lemma sort_key_stable_weighted:
  assumes "finite_weights xs"
  shows "filter (\<lambda>e. weighted e = w) (sort_key (\<lambda>e. - wreal e) xs) =
         filter (\<lambda>e. weighted e = w) xs"
proof -
  have "filter (\<lambda>e. wreal e = r) (sort_key (\<lambda>e. - wreal e) xs) = filter (\<lambda>e. wreal e = r) xs"
    for r
    using sort_key_stable [of "\<lambda>e. - wreal e" "- r" xs] by simp
  then show ?thesis
    unfolding filter_weighted [OF assms] filter_weighted [OF finite_weights_sort_key [OF assms]]
    by (cases w) simp_all
qed

text \<open>A list that holds a NaN weighted score and another entry is not sorted, in any
  order of its entries.\<close>

lemma NaN_unsorted:
  assumes "sorted_wrt (\<lambda>a b. nle (weighted b) (weighted a)) ys"
    and "e \<in> set ys" and "weighted e = NaN"
  shows "length ys \<le> 1"
proof (rule ccontr)
  assume "\<not> length ys \<le> 1"
  then have l: "2 \<le> length ys" by simp
  obtain i where i: "i < length ys" "ys ! i = e"
    using assms(2) by (auto simp: in_set_conv_nth)
  have "\<exists>j<length ys. j \<noteq> i"
  proof (cases "i = 0")
    case True
    then have "1 < length ys \<and> 1 \<noteq> i" using l by simp
    then show ?thesis by blast
  next
    case False
    then have "0 < length ys \<and> 0 \<noteq> i" using l by auto
    then show ?thesis by blast
  qed
  then obtain j where j: "j < length ys" "j \<noteq> i" by blast
  then consider "i < j" | "j < i" by linarith
  then show False
  proof cases
    case 1
    then have "nle (weighted (ys ! j)) (weighted (ys ! i))"
      using assms(1) j(1) by (simp add: sorted_wrt_iff_nth_less)
    then show False using i(2) assms(3) by (cases "weighted (ys ! j)") simp_all
  next
    case 2
    then have "nle (weighted (ys ! i)) (weighted (ys ! j))"
      using assms(1) i(1) by (simp add: sorted_wrt_iff_nth_less)
    then show False using i(2) assms(3) by simp
  qed
qed

subsection \<open>The position of an entry in a stably sorted list\<close>

lemma sorted_split:
  fixes f :: "'a \<Rightarrow> real"
  assumes "sorted (map f ys)"
  shows "ys = filter (\<lambda>y. f y < v) ys @ filter (\<lambda>y. f y = v) ys @ filter (\<lambda>y. v < f y) ys"
  using assms
proof (induction ys)
  case Nil
  then show ?case by simp
next
  case (Cons y ys)
  then have le: "\<forall>z\<in>set ys. f y \<le> f z" and s: "sorted (map f ys)" by simp_all
  note IH = Cons.IH [OF s]
  consider "f y < v" | "f y = v" | "v < f y" by linarith
  then show ?case
  proof cases
    case 1
    then show ?thesis using IH by simp
  next
    case 2
    then have "filter (\<lambda>z. f z < v) ys = []"
      using le by (auto simp: filter_empty_conv)
    then show ?thesis using 2 IH by simp
  next
    case 3
    then have "filter (\<lambda>z. f z < v) ys = []" "filter (\<lambda>z. f z = v) ys = []"
      using le by (auto simp: filter_empty_conv)
    then show ?thesis using 3 IH by simp
  qed
qed

lemma filter_nth_take:
  assumes "i < length xs" and "P (xs ! i)"
  shows "length (filter P (take i xs)) < length (filter P xs)"
    and "filter P xs ! length (filter P (take i xs)) = xs ! i"
proof -
  have "xs = take i xs @ xs ! i # drop (Suc i) xs"
    using assms(1) by (rule id_take_nth_drop)
  then have "filter P xs = filter P (take i xs) @ xs ! i # filter P (drop (Suc i) xs)"
    using assms(2) by (metis filter.simps(2) filter_append)
  then show "length (filter P (take i xs)) < length (filter P xs)"
    and "filter P xs ! length (filter P (take i xs)) = xs ! i"
    by (simp_all add: nth_append)
qed

lemma sort_key_position:
  fixes f :: "'a \<Rightarrow> real"
  assumes "i < length xs"
  defines "p \<equiv> length (filter (\<lambda>y. f y < f (xs ! i)) xs)
              + length (filter (\<lambda>y. f y = f (xs ! i)) (take i xs))"
  shows "p < length xs" and "sort_key f xs ! p = xs ! i"
proof -
  let ?v = "f (xs ! i)"
  let ?ys = "sort_key f xs"
  let ?L = "filter (\<lambda>y. f y < ?v) ?ys" and ?E = "filter (\<lambda>y. f y = ?v) ?ys"
  let ?G = "filter (\<lambda>y. ?v < f y) ?ys"
  have split: "?ys = ?L @ ?E @ ?G"
    by (rule sorted_split) (rule sorted_sort_key)
  have E: "?E = filter (\<lambda>y. f y = ?v) xs"
    using sort_key_stable [of f ?v xs] by (simp add: eq_commute)
  have "mset ?L = mset (filter (\<lambda>y. f y < ?v) xs)"
    by simp
  then have L: "length ?L = length (filter (\<lambda>y. f y < ?v) xs)"
    by (metis size_mset)
  define q where "q = length (filter (\<lambda>y. f y = ?v) (take i xs))"
  have q: "q < length ?E" "?E ! q = xs ! i"
    unfolding E q_def using filter_nth_take [OF assms(1), of "\<lambda>y. f y = ?v"] by simp_all
  have p: "p = length ?L + q"
    by (simp add: p_def q_def L)
  have "length ?ys = length ?L + length ?E + length ?G"
    using split by (metis length_append add.assoc)
  then have "p < length ?ys" using p q(1) by simp
  then show "p < length xs" by simp
  have "?ys ! p = (?L @ ?E @ ?G) ! (length ?L + q)"
    using split p by simp
  also have "\<dots> = (?E @ ?G) ! q"
    by (simp add: nth_append)
  also have "\<dots> = ?E ! q"
    using q(1) by (simp add: nth_append)
  finally show "?ys ! p = xs ! i" using q(2) by simp
qed

lemma take_member: "p < n \<Longrightarrow> p < length ys \<Longrightarrow> ys ! p \<in> set (take n ys)"
  by (metis in_set_conv_nth length_take min_less_iff_conj nth_take)

section \<open>Basic facts\<close>

lemma lit_simps: "lit [] = []" "lit (c # cs) = of_char c # lit cs"
  by (simp_all add: lit_def)

lemma trim_Nil: "trim [] = []"
  by (simp add: trim_def)

lemma find_None_set: "find P xs = None \<longleftrightarrow> (\<forall>x\<in>set xs. \<not> P x)"
  by (induction xs) auto

subsection \<open>Normalization\<close>

lemma unwrap_same: "normalizeFetchArgs_unwrap v = normalizeSearchArgs_unwrap v"
  by (induction v rule: normalizeSearchArgs_unwrap.induct) (auto split: option.splits)

lemma query_located:
  "query (normalizeSearchArgs raw) = (case located_query raw of Some s \<Rightarrow> s | None \<Rightarrow> [])"
  by (auto simp: normalizeSearchArgs_def located_query_def string_field_def Let_def
           split: jsval.splits option.splits)

lemma id_located:
  "normalizeFetchArgs raw = (case located_id raw of Some s \<Rightarrow> s | None \<Rightarrow> [])"
  by (auto simp: normalizeFetchArgs_def located_id_def string_field_def
           split: jsval.splits option.splits)

lemma topK_range: "1 \<le> topK (normalizeSearchArgs raw) \<and> topK (normalizeSearchArgs raw) \<le> 20"
  by (auto simp: normalizeSearchArgs_def Let_def DEFAULT_TOPK_def
           split: jsval.splits option.splits jsnum.splits)

subsection \<open>Scores\<close>

lemma score_chunk_simps:
  "weighted (score_chunk q c) = nmul (cosineSim q (embedding c)) (sourceWeight (source (meta c)))"
  "chunk (score_chunk q c) = c"
  "score (score_chunk q c) = cosineSim q (embedding c)"
  by (simp_all add: score_chunk_def Let_def)

lemma scripts_score_chunk_simps:
  "weighted (scripts_score_chunk qv q c) =
     nmul (nmul (cosineSim qv (embedding c)) (scripts_sourceWeight (source (meta c))))
          (headingWeight (heading (meta c)) q)"
  "chunk (scripts_score_chunk qv q c) = c"
  "score (scripts_score_chunk qv q c) = cosineSim qv (embedding c)"
  by (simp_all add: scripts_score_chunk_def Let_def)

lemma double_scores:
  "\<forall>e\<in>set (map (score_chunk q) cs). \<forall>w. weighted e = Num w \<longrightarrow> double w"
  by (auto simp: score_chunk_simps nmul_double)

lemma double_scripts_scores:
  "\<forall>e\<in>set (map (scripts_score_chunk qv q) cs). \<forall>w. weighted e = Num w \<longrightarrow> double w"
  by (auto simp: scripts_score_chunk_simps nmul_double)

text \<open>When every weighted score is finite, the ranking is the first \<open>k\<close> entries of the
  stably sorted list, whatever the engine.\<close>

lemma scored_eq:
  assumes "conforming srt" and "finite_weights (map (score_chunk q) cs)" and "0 \<le> k"
  shows "scored srt q cs k = take (nat k) (sort_key (\<lambda>e. - wreal e) (map (score_chunk q) cs))"
  using conforming_sort_key [OF assms(1,2) double_scores] assms(3)
  by (simp add: scored_def slice0_take)

lemma server_hits_eq:
  assumes "conforming srt" and "finite_weights (map (scripts_score_chunk qv q) cs)" and "0 \<le> k"
  shows "server_hits srt qv cs q k =
           take (nat k) (sort_key (\<lambda>e. - wreal e) (map (scripts_score_chunk qv q) cs))"
  using conforming_sort_key [OF assms(1,2) double_scripts_scores] assms(3)
  by (simp add: server_hits_def slice0_take)

lemma repl_scored_eq:
  assumes "conforming srt" and "finite_weights (map (scripts_score_chunk qv q) cs)"
  shows "repl_scored srt qv cs q =
           take 5 (sort_key (\<lambda>e. - wreal e) (map (scripts_score_chunk qv q) cs))"
  using conforming_sort_key [OF assms(1,2) double_scripts_scores]
  by (simp add: repl_scored_def slice0_def)

lemma score_chunk_spec:
  "score_chunk qEmb c =
     (let raw = cosineSim qEmb (embedding c)
      in \<lparr>chunk = c, score = raw,
          weighted = nmul (nmul raw (sourceWeight (source (meta c)))) (Num 1)\<rparr>)"
proof -
  have "nmul (nmul (cosineSim qEmb (embedding c)) (sourceWeight (source (meta c)))) (Num 1) =
        nmul (cosineSim qEmb (embedding c)) (sourceWeight (source (meta c)))"
    by (rule nmul_1) (rule nmul_double)
  then show ?thesis by (simp add: score_chunk_def Let_def)
qed

subsection \<open>The weight tables on the examples\<close>

lemma sourceWeight_examples:
  "sourceWeight (lit ''docs/api.md'') = Num d115"
  "sourceWeight (lit ''docs/faq.md'') = Num d095"
  "sourceWeight (lit ''docs/other.md'') = Num 1"
  using fl_lit_115 fl_lit_095 fl_lit_1 by (simp_all add: sourceWeight_def lit_simps)

lemma scripts_sourceWeight_examples:
  "scripts_sourceWeight (lit ''docs/api.md'') = Num d135"
  "scripts_sourceWeight (lit ''docs/faq.md'') = Num d095"
  "scripts_sourceWeight (lit ''docs/other.md'') = Num 1"
  using fl_lit_135 fl_lit_095 fl_lit_1 by (simp_all add: scripts_sourceWeight_def lit_simps)

lemma headingWeight_examples:
  "headingWeight kw_retry kw_retry = Num d135"
  "headingWeight kw_backoff kw_retry = Num (5 / 4)"
  "headingWeight (lit ''h'') kw_retry = Num 1"
  using fl_lit_135 fl_lit_125 fl_lit_1
  by (simp_all add: headingWeight_def kw_retry_def kw_auth_def kw_backoff_def lit_simps Let_def)

lemma example_chunk_simps:
  "id' (example_chunk i src h e) = lit i"
  "source (meta (example_chunk i src h e)) = lit src"
  "heading (meta (example_chunk i src h e)) = h"
  "embedding (example_chunk i src h e) = e"
  by (simp_all add: example_chunk_def)

lemma fl_literals:
  "fl d115 = Num d115" "fl d095 = Num d095" "fl d135 = Num d135" "fl (5 / 4) = Num (5 / 4)"
  "fl (- d115) = Num (- d115)" "fl (- d095) = Num (- d095)" "fl (- d135) = Num (- d135)"
  using double_literals by (simp_all add: double_def fl_minus)

section \<open>Argument normalization: the claims\<close>

text \<open>
  C4. \<open>normalizeSearchArgs\<close> unwraps the envelope keys recursively and in order: an
  \<open>arguments\<close> key first, else an \<open>input\<close> key, else it stops. After unwrapping, a bare
  string gives that string as the query with \<open>topK = 8\<close>; in an object a string-valued
  \<open>query\<close> is preferred over \<open>q\<close>; a finite numeric \<open>topK\<close> is truncated and clamped into
  \<open>[1, 20]\<close>, and \<open>topK\<close> is 8 when the field is absent, not a number, or not finite.
  The three examples of the specification hold.
\<close>

theorem normalizeSearchArgs_spec:
  "(\<forall>kvs a. map_of kvs (lit ''arguments'') = Some a \<longrightarrow>
       normalizeSearchArgs (JObj kvs) = normalizeSearchArgs a)
 \<and> (\<forall>kvs i. map_of kvs (lit ''arguments'') = None \<and> map_of kvs (lit ''input'') = Some i \<longrightarrow>
       normalizeSearchArgs (JObj kvs) = normalizeSearchArgs i)
 \<and> (\<forall>s. normalizeSearchArgs (JStr s) = \<lparr>query = s, topK = 8\<rparr>)
 \<and> (\<forall>kvs s. plain kvs \<and> string_field kvs ''query'' = Some s \<longrightarrow>
       query (normalizeSearchArgs (JObj kvs)) = s)
 \<and> (\<forall>kvs s. plain kvs \<and> string_field kvs ''query'' = None \<and> string_field kvs ''q'' = Some s \<longrightarrow>
       query (normalizeSearchArgs (JObj kvs)) = s)
 \<and> (\<forall>kvs x. plain kvs \<and> (string_field kvs ''query'' \<noteq> None \<or> string_field kvs ''q'' \<noteq> None) \<and>
       map_of kvs (lit ''topK'') = Some (JNum (Num x)) \<longrightarrow>
       topK (normalizeSearchArgs (JObj kvs)) = max 1 (min 20 (trunc x)) \<and>
       1 \<le> topK (normalizeSearchArgs (JObj kvs)) \<and> topK (normalizeSearchArgs (JObj kvs)) \<le> 20)
 \<and> (\<forall>kvs. plain kvs \<and> (string_field kvs ''query'' \<noteq> None \<or> string_field kvs ''q'' \<noteq> None) \<and>
       (\<forall>x. map_of kvs (lit ''topK'') \<noteq> Some (JNum (Num x))) \<longrightarrow>
       topK (normalizeSearchArgs (JObj kvs)) = 8)
 \<and> normalizeSearchArgs (JStr (lit ''hello'')) = \<lparr>query = lit ''hello'', topK = 8\<rparr>
 \<and> normalizeSearchArgs (JObj [(lit ''query'', JStr (lit ''x'')), (lit ''topK'', JNum (Num 99))])
       = \<lparr>query = lit ''x'', topK = 20\<rparr>
 \<and> normalizeSearchArgs (JObj [(lit ''input'', JObj [(lit ''q'', JStr (lit ''y''))])])
       = \<lparr>query = lit ''y'', topK = 8\<rparr>"
proof (intro conjI allI impI)
  fix kvs :: "(jsstring \<times> jsval) list" and a
  assume "map_of kvs (lit ''arguments'') = Some a"
  then show "normalizeSearchArgs (JObj kvs) = normalizeSearchArgs a"
    by (simp add: normalizeSearchArgs_def)
next
  fix kvs :: "(jsstring \<times> jsval) list" and i
  assume "map_of kvs (lit ''arguments'') = None \<and> map_of kvs (lit ''input'') = Some i"
  then show "normalizeSearchArgs (JObj kvs) = normalizeSearchArgs i"
    by (simp add: normalizeSearchArgs_def)
next
  fix s show "normalizeSearchArgs (JStr s) = \<lparr>query = s, topK = 8\<rparr>"
    by (simp add: normalizeSearchArgs_def DEFAULT_TOPK_def)
next
  fix kvs s assume "plain kvs \<and> string_field kvs ''query'' = Some s"
  then have "normalizeSearchArgs_unwrap (JObj kvs) = JObj kvs" "located_query (JObj kvs) = Some s"
    by (simp_all add: plain_def located_query_def)
  then show "query (normalizeSearchArgs (JObj kvs)) = s"
    by (simp add: query_located)
next
  fix kvs s
  assume "plain kvs \<and> string_field kvs ''query'' = None \<and> string_field kvs ''q'' = Some s"
  then have "located_query (JObj kvs) = Some s"
    by (simp add: plain_def located_query_def)
  then show "query (normalizeSearchArgs (JObj kvs)) = s"
    by (simp add: query_located)
next
  fix kvs x
  assume h: "plain kvs \<and> (string_field kvs ''query'' \<noteq> None \<or> string_field kvs ''q'' \<noteq> None) \<and>
       map_of kvs (lit ''topK'') = Some (JNum (Num x))"
  then have u: "normalizeSearchArgs_unwrap (JObj kvs) = JObj kvs"
    by (simp add: plain_def)
  from h show "topK (normalizeSearchArgs (JObj kvs)) = max 1 (min 20 (trunc x))"
    unfolding normalizeSearchArgs_def u string_field_def
    by (auto simp: Let_def split: option.splits jsval.splits)
  then show "1 \<le> topK (normalizeSearchArgs (JObj kvs))" "topK (normalizeSearchArgs (JObj kvs)) \<le> 20"
    by simp_all
next
  fix kvs
  assume h: "plain kvs \<and> (string_field kvs ''query'' \<noteq> None \<or> string_field kvs ''q'' \<noteq> None) \<and>
       (\<forall>x. map_of kvs (lit ''topK'') \<noteq> Some (JNum (Num x)))"
  then have u: "normalizeSearchArgs_unwrap (JObj kvs) = JObj kvs"
    by (simp add: plain_def)
  from h show "topK (normalizeSearchArgs (JObj kvs)) = 8"
    unfolding normalizeSearchArgs_def u string_field_def
    by (auto simp: Let_def DEFAULT_TOPK_def split: option.splits jsval.splits jsnum.splits)
next
  show "normalizeSearchArgs (JStr (lit ''hello'')) = \<lparr>query = lit ''hello'', topK = 8\<rparr>"
    by (simp add: normalizeSearchArgs_def DEFAULT_TOPK_def)
next
  show "normalizeSearchArgs (JObj [(lit ''query'', JStr (lit ''x'')), (lit ''topK'', JNum (Num 99))])
       = \<lparr>query = lit ''x'', topK = 20\<rparr>"
    by (simp add: normalizeSearchArgs_def DEFAULT_TOPK_def lit_simps trunc_def)
next
  show "normalizeSearchArgs (JObj [(lit ''input'', JObj [(lit ''q'', JStr (lit ''y''))])])
       = \<lparr>query = lit ''y'', topK = 8\<rparr>"
    by (simp add: normalizeSearchArgs_def DEFAULT_TOPK_def lit_simps trunc_def)
qed

text \<open>
  Witness for C4: a doubly wrapped string; an object with both \<open>query\<close> and \<open>q\<close> and the
  \<open>topK\<close> 3.7; an object whose \<open>query\<close> is a number and whose \<open>topK\<close> is a string.
\<close>

theorem normalizeSearchArgs_spec_witness:
  "normalizeSearchArgs (JObj [(lit ''arguments'', JObj [(lit ''input'', JStr (lit ''hi''))])])
     = \<lparr>query = lit ''hi'', topK = 8\<rparr>
 \<and> normalizeSearchArgs (JObj [(lit ''query'', JStr (lit ''x'')), (lit ''q'', JStr (lit ''y'')),
                              (lit ''topK'', JNum (Num 3.7))])
     = \<lparr>query = lit ''x'', topK = 3\<rparr>
 \<and> normalizeSearchArgs (JObj [(lit ''query'', JNum (Num 1)), (lit ''q'', JStr (lit ''y'')),
                              (lit ''topK'', JStr (lit ''5''))])
     = \<lparr>query = lit ''y'', topK = 8\<rparr>"
proof -
  let ?inner = "[(lit ''input'', JStr (lit ''hi''))]"
  let ?outer = "[(lit ''arguments'', JObj ?inner)]"
  let ?both = "[(lit ''query'', JStr (lit ''x'')), (lit ''q'', JStr (lit ''y'')),
                (lit ''topK'', JNum (Num 3.7))]"
  let ?second = "[(lit ''query'', JNum (Num 1)), (lit ''q'', JStr (lit ''y'')),
                  (lit ''topK'', JStr (lit ''5''))]"
  note spec = normalizeSearchArgs_spec
  have o: "map_of ?outer (lit ''arguments'') = Some (JObj ?inner)"
    by simp
  have i: "map_of ?inner (lit ''arguments'') = None \<and>
           map_of ?inner (lit ''input'') = Some (JStr (lit ''hi''))"
    by (simp add: lit_simps)
  have 1: "normalizeSearchArgs (JObj ?outer) = \<lparr>query = lit ''hi'', topK = 8\<rparr>"
    using spec o i by metis
  have b: "plain ?both" "string_field ?both ''query'' = Some (lit ''x'')"
    "string_field ?both ''query'' \<noteq> None \<or> string_field ?both ''q'' \<noteq> None"
    "map_of ?both (lit ''topK'') = Some (JNum (Num 3.7))"
    by (simp_all add: plain_def string_field_def lit_simps)
  have "query (normalizeSearchArgs (JObj ?both)) = lit ''x''"
    using spec b by blast
  moreover have "topK (normalizeSearchArgs (JObj ?both)) = max 1 (min 20 (trunc 3.7))"
    using spec b by blast
  moreover have "trunc 3.7 = 3"
    by (simp add: trunc_def)
  ultimately have 2: "normalizeSearchArgs (JObj ?both) = \<lparr>query = lit ''x'', topK = 3\<rparr>"
    by (cases "normalizeSearchArgs (JObj ?both)") simp
  have s: "plain ?second" "string_field ?second ''query'' = None"
    "string_field ?second ''q'' = Some (lit ''y'')"
    "string_field ?second ''query'' \<noteq> None \<or> string_field ?second ''q'' \<noteq> None"
    "\<forall>x. map_of ?second (lit ''topK'') \<noteq> Some (JNum (Num x))"
    by (simp_all add: plain_def string_field_def lit_simps)
  have "query (normalizeSearchArgs (JObj ?second)) = lit ''y''"
    using spec s by blast
  moreover have "topK (normalizeSearchArgs (JObj ?second)) = 8"
    using spec s by blast
  ultimately have 3: "normalizeSearchArgs (JObj ?second) = \<lparr>query = lit ''y'', topK = 8\<rparr>"
    by (cases "normalizeSearchArgs (JObj ?second)") simp
  from 1 2 3 show ?thesis by simp
qed

text \<open>
  C9. \<open>normalizeFetchArgs\<close> unwraps exactly as \<open>normalizeSearchArgs\<close> does. After
  unwrapping, a bare string is the id and an object's string-valued \<open>id\<close> field is the
  id. For every payload from which no non-empty id string is obtained this way, \<open>fetch\<close>
  answers with the tagged error \<open>invalid_id\<close>.
\<close>

theorem normalizeFetchArgs_spec:
  "normalizeFetchArgs_unwrap raw = normalizeSearchArgs_unwrap raw
 \<and> (\<forall>s. normalizeFetchArgs_unwrap raw = JStr s \<longrightarrow> normalizeFetchArgs raw = s)
 \<and> (\<forall>kvs s. normalizeFetchArgs_unwrap raw = JObj kvs \<and> map_of kvs (lit ''id'') = Some (JStr s) \<longrightarrow>
       normalizeFetchArgs raw = s)
 \<and> (located_id raw = None \<or> located_id raw = Some [] \<longrightarrow>
       fetch_tool DOC_BASE_URL index raw =
         tool_error ''invalid_id'' (lit ''fetch arguments did not contain a valid id string''))"
proof (intro conjI allI impI)
  show "normalizeFetchArgs_unwrap raw = normalizeSearchArgs_unwrap raw"
    by (rule unwrap_same)
next
  fix s assume "normalizeFetchArgs_unwrap raw = JStr s"
  then show "normalizeFetchArgs raw = s"
    by (simp add: normalizeFetchArgs_def)
next
  fix kvs s
  assume "normalizeFetchArgs_unwrap raw = JObj kvs \<and> map_of kvs (lit ''id'') = Some (JStr s)"
  then show "normalizeFetchArgs raw = s"
    by (simp add: normalizeFetchArgs_def)
next
  assume "located_id raw = None \<or> located_id raw = Some []"
  then have "trim (normalizeFetchArgs raw) = []"
    by (auto simp: id_located trim_Nil)
  then show "fetch_tool DOC_BASE_URL index raw =
         tool_error ''invalid_id'' (lit ''fetch arguments did not contain a valid id string'')"
    by (simp add: fetch_tool_def Let_def)
qed

text \<open>
  Witness for C9: the wrapped payload \<open>{input: {id: "a#0"}}\<close> gives the id \<open>a#0\<close>, a bare
  string is its own id, and \<open>{input: {id: 7}}\<close> is rejected.
\<close>

theorem normalizeFetchArgs_spec_witness:
  "normalizeFetchArgs (JObj [(lit ''input'', JObj [(lit ''id'', JStr (lit ''a#0''))])]) = lit ''a#0''
 \<and> normalizeFetchArgs (JStr (lit ''a#0'')) = lit ''a#0''
 \<and> fetch_tool (lit ''https://example.test/'') \<lparr>model = lit ''m'', chunks = []\<rparr>
       (JObj [(lit ''input'', JObj [(lit ''id'', JNum (Num 7))])])
     = tool_error ''invalid_id'' (lit ''fetch arguments did not contain a valid id string'')"
proof -
  let ?good = "JObj [(lit ''input'', JObj [(lit ''id'', JStr (lit ''a#0''))])]"
  let ?bad = "JObj [(lit ''input'', JObj [(lit ''id'', JNum (Num 7))])]"
  have g: "normalizeFetchArgs_unwrap ?good = JObj [(lit ''id'', JStr (lit ''a#0''))] \<and>
           map_of [(lit ''id'', JStr (lit ''a#0''))] (lit ''id'') = Some (JStr (lit ''a#0''))"
    by (simp add: lit_simps)
  have 1: "normalizeFetchArgs ?good = lit ''a#0''"
    using normalizeFetchArgs_spec [of ?good] g by blast
  have s: "normalizeFetchArgs_unwrap (JStr (lit ''a#0'')) = JStr (lit ''a#0'')"
    by simp
  have 2: "normalizeFetchArgs (JStr (lit ''a#0'')) = lit ''a#0''"
    using normalizeFetchArgs_spec [of "JStr (lit ''a#0'')"] s by blast
  have b: "located_id ?bad = None \<or> located_id ?bad = Some []"
    by (simp add: located_id_def string_field_def lit_simps)
  have 3: "fetch_tool (lit ''https://example.test/'') \<lparr>model = lit ''m'', chunks = []\<rparr> ?bad
     = tool_error ''invalid_id'' (lit ''fetch arguments did not contain a valid id string'')"
    using normalizeFetchArgs_spec [of ?bad] b by blast
  from 1 2 3 show ?thesis by simp
qed

section \<open>The tools: the claims\<close>

text \<open>
  C5. For every search payload in which no string-valued query can be located after
  unwrapping, or whose located query is empty after trimming, \<open>search\<close> answers with the
  tagged error \<open>invalid_query\<close> and makes no call to the embedding provider.
\<close>

theorem search_invalid_query:
  assumes "located_query args = None \<or> (\<exists>s. located_query args = Some s \<and> trim s = [])"
  shows "search_tool srt embedQuery DOC_BASE_URL index args =
           (tool_error ''invalid_query''
              (lit ''search arguments did not contain a valid query string''), [])"
proof -
  have "trim (query (normalizeSearchArgs args)) = []"
    using assms by (auto simp: query_located trim_Nil)
  then show ?thesis
    by (simp add: search_tool_def Let_def)
qed

text \<open>Witness for C5: a query of two spaces, with a provider that would succeed.\<close>

theorem search_invalid_query_witness:
  "search_tool js_sort (\<lambda>q m. Inr [Num 1]) (lit ''https://example.test/'')
      \<lparr>model = lit ''m'', chunks = []\<rparr>
      (JObj [(lit ''query'', JStr (lit ''  ''))])
     = (tool_error ''invalid_query''
          (lit ''search arguments did not contain a valid query string''), [])"
proof -
  have l: "located_query (JObj [(lit ''query'', JStr (lit ''  ''))]) = Some (lit ''  '')"
    by (simp add: located_query_def string_field_def)
  have t: "trim (lit ''  '') = []"
    by (simp add: trim_def lit_simps is_ws_def)
  from l t have h: "located_query (JObj [(lit ''query'', JStr (lit ''  ''))]) = None \<or>
     (\<exists>s. located_query (JObj [(lit ''query'', JStr (lit ''  ''))]) = Some s \<and> trim s = [])"
    by blast
  show ?thesis
    by (rule search_invalid_query [OF h])
qed

text \<open>
  C1, as amended. For every fetch call whose normalized id is a non-empty string that is
  the id of no chunk of the index, the result carries the not-found record
  \<open>{id, title: "NOT_FOUND", text: "", url, metadata: {error: "not_found"}}\<close>, and its
  content differs from the content of every tagged error. The handler of
  src/mcp_remote.ts returns the record with \<open>isError: true\<close>. The handlers of
  src/unnamed/part_003 and src/unnamed/part_004, given that id, return the same record
  without the flag.
\<close>

theorem fetch_not_found:
  assumes "trim (normalizeFetchArgs args) = i" and "i \<noteq> []"
    and "\<forall>c\<in>set (chunks index). id' c \<noteq> i"
  shows "fetch_tool DOC_BASE_URL index args =
           \<lparr>isError = True, content = not_found i DOC_BASE_URL\<rparr>
       \<and> (\<forall>tag message. content (fetch_tool DOC_BASE_URL index args) \<noteq>
                          content (tool_error tag message))
       \<and> fetch_tool_string DOC_BASE_URL index i =
           \<lparr>isError = False, content = not_found i DOC_BASE_URL\<rparr>"
proof -
  have f: "find (\<lambda>c. id' c = i) (chunks index) = None"
    using assms(3) by (simp add: find_None_set)
  then have r: "fetch_tool DOC_BASE_URL index args =
      \<lparr>isError = True, content = not_found i DOC_BASE_URL\<rparr>"
    using assms(1,2) by (simp add: fetch_tool_def Let_def)
  moreover have "\<forall>tag message. not_found i DOC_BASE_URL \<noteq> content (tool_error tag message)"
    by (simp add: not_found_def tool_error_def)
  moreover have "fetch_tool_string DOC_BASE_URL index i =
      \<lparr>isError = False, content = not_found i DOC_BASE_URL\<rparr>"
    using f by (simp add: fetch_tool_string_def)
  ultimately show ?thesis by simp
qed

text \<open>Witness for C1: the id \<open>b\<close>, padded with spaces, in an index whose only chunk is \<open>a\<close>.\<close>

theorem fetch_not_found_witness:
  "fetch_tool (lit ''https://example.test/'')
     \<lparr>model = lit ''m'', chunks = [example_chunk ''a'' ''docs/api.md'' (lit ''h'') [Num 1]]\<rparr>
     (JObj [(lit ''id'', JStr (lit '' b ''))])
   = \<lparr>isError = True, content = not_found (lit ''b'') (lit ''https://example.test/'')\<rparr>"
proof -
  let ?index = "\<lparr>model = lit ''m'', chunks = [example_chunk ''a'' ''docs/api.md'' (lit ''h'') [Num 1]]\<rparr>"
  have 1: "trim (normalizeFetchArgs (JObj [(lit ''id'', JStr (lit '' b ''))])) = lit ''b''"
    by (simp add: normalizeFetchArgs_def trim_def lit_simps is_ws_def)
  have 2: "lit ''b'' \<noteq> []"
    by (simp add: lit_simps)
  have 3: "\<forall>c\<in>set (chunks ?index). id' c \<noteq> lit ''b''"
    by (simp add: example_chunk_def lit_simps)
  show ?thesis
    using fetch_not_found [OF 1 2 3] by simp
qed

text \<open>
  Counterexample to C1 as stated: in src/mcp_remote.ts the not-found answer is flagged as
  an error.
\<close>

theorem fetch_not_found_counterexample:
  "fetch_tool (lit ''https://example.test/'')
     \<lparr>model = lit ''m'', chunks = [example_chunk ''a'' ''docs/api.md'' (lit ''h'') [Num 1]]\<rparr>
     (JStr (lit ''b''))
   = \<lparr>isError = True, content = not_found (lit ''b'') (lit ''https://example.test/'')\<rparr>"
  by (simp add: fetch_tool_def normalizeFetchArgs_def trim_def lit_simps is_ws_def
        example_chunk_def Let_def)

lemma position_count:
  assumes fw: "finite_weights (map g cs)" and i: "i < length cs"
  shows "length (filter (\<lambda>y. - wreal y < - wreal (map g cs ! i)) (map g cs))
           + length (filter (\<lambda>y. - wreal y = - wreal (map g cs ! i)) (take i (map g cs)))
       = length (filter (\<lambda>c. nlt (weighted (g (cs ! i))) (weighted (g c))) cs)
           + length (filter (\<lambda>c. weighted (g c) = weighted (g (cs ! i))) (take i cs))"
proof -
  have gi: "g (cs ! i) \<in> set (map g cs)" using i by simp
  have mem: "g c \<in> set (map g cs)" if "c \<in> set cs" for c using that by simp
  have 1: "filter (\<lambda>y. - wreal y < - wreal (map g cs ! i)) (map g cs)
         = map g (filter (\<lambda>c. nlt (weighted (g (cs ! i))) (weighted (g c))) cs)"
  proof -
    have "filter (\<lambda>c. - wreal (g c) < - wreal (g (cs ! i))) cs
        = filter (\<lambda>c. nlt (weighted (g (cs ! i))) (weighted (g c))) cs"
      using nle_wreal(2) [OF fw gi mem] by (intro filter_cong) auto
    then show ?thesis using i by (simp add: filter_map comp_def)
  qed
  have 2: "filter (\<lambda>y. - wreal y = - wreal (map g cs ! i)) (take i (map g cs))
         = map g (filter (\<lambda>c. weighted (g c) = weighted (g (cs ! i))) (take i cs))"
  proof -
    have "filter (\<lambda>c. - wreal (g c) = - wreal (g (cs ! i))) (take i cs)
        = filter (\<lambda>c. weighted (g c) = weighted (g (cs ! i))) (take i cs)"
    proof (intro filter_cong refl)
      fix c assume "c \<in> set (take i cs)"
      then have "c \<in> set cs" by (rule in_set_takeD)
      then show "(- wreal (g c) = - wreal (g (cs ! i))) = (weighted (g c) = weighted (g (cs ! i)))"
        using nle_wreal(3) [OF fw mem gi, of c] by simp
    qed
    then show ?thesis using i by (simp add: filter_map comp_def take_map)
  qed
  show ?thesis unfolding 1 2 by simp
qed

text \<open>
  C10, as amended. For every search call whose query normalizes to a non-empty string and
  whose embedding call succeeds, the answer is a non-error result list with exactly
  \<open>min(topK, number of chunks)\<close> entries, whatever the scores, for every engine whose
  sort conforms to ECMAScript. No score threshold removes a chunk: when every weighted
  score is a finite number, a chunk is among the results whenever the number of chunks
  that score higher, plus the number of chunks before it in the index that score the same,
  is less than \<open>topK\<close>; its own score may be zero or negative.
\<close>

theorem search_result_count:
  assumes "conforming srt"
    and "trim (query (normalizeSearchArgs args)) = q" and "q \<noteq> []"
    and "embedQuery q (model index) = Inr qEmb"
  shows "\<exists>rs. fst (search_tool srt embedQuery DOC_BASE_URL index args) =
            \<lparr>isError = False, content = JObj [(lit ''results'', JArr rs)]\<rparr>
          \<and> int (length rs) = min (topK (normalizeSearchArgs args)) (int (length (chunks index)))
          \<and> (finite_weights (map (score_chunk qEmb) (chunks index)) \<longrightarrow>
               (\<forall>i<length (chunks index).
                  length (filter (\<lambda>c. nlt (weighted (score_chunk qEmb (chunks index ! i)))
                                          (weighted (score_chunk qEmb c))) (chunks index))
                  + length (filter (\<lambda>c. weighted (score_chunk qEmb c) =
                                          weighted (score_chunk qEmb (chunks index ! i)))
                             (take i (chunks index)))
                  < nat (topK (normalizeSearchArgs args)) \<longrightarrow>
                  search_result DOC_BASE_URL (score_chunk qEmb (chunks index ! i)) \<in> set rs))"
proof -
  let ?k = "topK (normalizeSearchArgs args)"
  let ?cs = "chunks index"
  let ?xs = "map (score_chunk qEmb) ?cs"
  let ?rs = "map (search_result DOC_BASE_URL) (scored srt qEmb ?cs ?k)"
  have k: "0 \<le> ?k"
    using topK_range [of args] by simp
  have 1: "fst (search_tool srt embedQuery DOC_BASE_URL index args) =
            \<lparr>isError = False, content = JObj [(lit ''results'', JArr ?rs)]\<rparr>"
    using assms(2-4) by (simp add: search_tool_def Let_def)
  have 2: "int (length ?rs) = min ?k (int (length ?cs))"
    using k by (simp add: scored_def slice0_length conforming_length [OF assms(1)])
  have 3: "search_result DOC_BASE_URL (score_chunk qEmb (?cs ! i)) \<in> set ?rs"
    if fw: "finite_weights ?xs" and i: "i < length ?cs"
      and c: "length (filter (\<lambda>c. nlt (weighted (score_chunk qEmb (?cs ! i)))
                                     (weighted (score_chunk qEmb c))) ?cs)
              + length (filter (\<lambda>c. weighted (score_chunk qEmb c) =
                                     weighted (score_chunk qEmb (?cs ! i))) (take i ?cs))
              < nat ?k" for i
  proof -
    let ?f = "\<lambda>e. - wreal e"
    define p where "p = length (filter (\<lambda>y. ?f y < ?f (?xs ! i)) ?xs)
                      + length (filter (\<lambda>y. ?f y = ?f (?xs ! i)) (take i ?xs))"
    have ix: "i < length ?xs" using i by simp
    have pos: "p < length ?xs" "sort_key ?f ?xs ! p = ?xs ! i"
      unfolding p_def by (rule sort_key_position [OF ix])+
    have "p < nat ?k"
      using c unfolding p_def position_count [OF fw i] .
    then have "sort_key ?f ?xs ! p \<in> set (take (nat ?k) (sort_key ?f ?xs))"
      using pos(1) by (intro take_member) simp_all
    then have "?xs ! i \<in> set (scored srt qEmb ?cs ?k)"
      using pos(2) scored_eq [OF assms(1) fw k] by simp
    then have "score_chunk qEmb (?cs ! i) \<in> set (scored srt qEmb ?cs ?k)"
      using i by simp
    then show ?thesis by simp
  qed
  from 1 2 3 show ?thesis by blast
qed

text \<open>
  Witness for C10: an api chunk and a faq chunk opposite to the query vector and a chunk
  with a zero embedding, with \<open>topK = 2\<close>. The weighted scores are \<open>-1.15\<close>, \<open>-0.95\<close>
  and \<open>0\<close>: the result has two entries, the zero chunk and the faq chunk.
\<close>

theorem search_result_count_witness:
  "\<exists>rs. fst (search_tool js_sort (\<lambda>q m. Inr [Num 1]) (lit ''https://example.test/'')
              \<lparr>model = lit ''m'',
               chunks = [example_chunk ''a'' ''docs/api.md'' (lit ''h'') [Num (- 1)],
                         example_chunk ''f'' ''docs/faq.md'' (lit ''h'') [Num (- 1)],
                         example_chunk ''o'' ''docs/other.md'' (lit ''h'') [Num 0]]\<rparr>
              (JObj [(lit ''query'', JStr (lit ''refunds'')), (lit ''topK'', JNum (Num 2))]))
          = \<lparr>isError = False, content = JObj [(lit ''results'', JArr rs)]\<rparr>
       \<and> length rs = 2
       \<and> search_result (lit ''https://example.test/'')
            (score_chunk [Num 1] (example_chunk ''o'' ''docs/other.md'' (lit ''h'') [Num 0])) \<in> set rs
       \<and> search_result (lit ''https://example.test/'')
            (score_chunk [Num 1] (example_chunk ''f'' ''docs/faq.md'' (lit ''h'') [Num (- 1)])) \<in> set rs"
proof -
  let ?a = "example_chunk ''a'' ''docs/api.md'' (lit ''h'') [Num (- 1)]"
  let ?f = "example_chunk ''f'' ''docs/faq.md'' (lit ''h'') [Num (- 1)]"
  let ?o = "example_chunk ''o'' ''docs/other.md'' (lit ''h'') [Num 0]"
  let ?index = "\<lparr>model = lit ''m'', chunks = [?a, ?f, ?o]\<rparr>"
  let ?args = "JObj [(lit ''query'', JStr (lit ''refunds'')), (lit ''topK'', JNum (Num 2))]"
  let ?e = "\<lambda>(q::jsstring) (m::jsstring). (Inr [Num 1] :: jsstring + jsnum list)"
  let ?url = "lit ''https://example.test/''"
  have n: "normalizeSearchArgs ?args = \<lparr>query = lit ''refunds'', topK = 2\<rparr>"
    by (simp add: normalizeSearchArgs_def lit_simps trunc_def)
  have 1: "trim (query (normalizeSearchArgs ?args)) = lit ''refunds''"
    unfolding n by (simp add: trim_def lit_simps is_ws_def)
  have 2: "lit ''refunds'' \<noteq> []"
    by (simp add: lit_simps)
  have 3: "?e (lit ''refunds'') (model ?index) = Inr [Num 1]"
    by simp
  have w: "weighted (score_chunk [Num 1] ?a) = Num (- d115)"
    "weighted (score_chunk [Num 1] ?f) = Num (- d095)"
    "weighted (score_chunk [Num 1] ?o) = Num 0"
    by (simp_all add: score_chunk_simps example_chunk_simps cosineSim_1_m1 cosineSim_1_0
          sourceWeight_examples fl_literals fl_0)
  have fw: "finite_weights (map (score_chunk [Num 1]) (chunks ?index))"
    by (simp add: finite_weights_def w)
  obtain rs where rs: "fst (search_tool js_sort ?e ?url ?index ?args) =
        \<lparr>isError = False, content = JObj [(lit ''results'', JArr rs)]\<rparr>"
      "int (length rs) = min (topK (normalizeSearchArgs ?args)) (int (length (chunks ?index)))"
      "finite_weights (map (score_chunk [Num 1]) (chunks ?index)) \<longrightarrow>
        (\<forall>i<length (chunks ?index).
           length (filter (\<lambda>c. nlt (weighted (score_chunk [Num 1] (chunks ?index ! i)))
                                   (weighted (score_chunk [Num 1] c))) (chunks ?index))
           + length (filter (\<lambda>c. weighted (score_chunk [Num 1] c) =
                                   weighted (score_chunk [Num 1] (chunks ?index ! i)))
                      (take i (chunks ?index)))
           < nat (topK (normalizeSearchArgs ?args)) \<longrightarrow>
           search_result ?url (score_chunk [Num 1] (chunks ?index ! i)) \<in> set rs)"
    using search_result_count [OF conforming_js_sort 1 2 3, of ?url] by blast
  have len: "length rs = 2"
    using rs(2) by (simp add: n)
  have d: "0 < d115" "0 < d095" "d095 < d115"
    by (simp_all add: d115_def d095_def)
  note member = rs(3) [THEN mp, OF fw, rule_format]
  have o: "search_result ?url (score_chunk [Num 1] ?o) \<in> set rs"
    using member [of 2] d by (simp add: n w)
  have f: "search_result ?url (score_chunk [Num 1] ?f) \<in> set rs"
    using member [of 1] d by (simp add: n w)
  from rs(1) len o f show ?thesis by blast
qed

text \<open>
  Counterexample to C10 as stated: two chunks with the same weighted score \<open>-1\<close> and
  \<open>topK = 1\<close>. No chunk scores higher than the second one, and it is not returned: the
  result is the first chunk alone.
\<close>

theorem search_result_count_counterexample:
  "fst (search_tool js_sort (\<lambda>q m. Inr [Num 1]) (lit ''https://example.test/'')
         \<lparr>model = lit ''m'',
          chunks = [example_chunk ''x'' ''docs/other.md'' (lit ''h'') [Num (- 1)],
                    example_chunk ''y'' ''docs/other.md'' (lit ''h'') [Num (- 1)]]\<rparr>
         (JObj [(lit ''query'', JStr (lit ''refunds'')), (lit ''topK'', JNum (Num 1))]))
     = \<lparr>isError = False,
        content = JObj [(lit ''results'',
          JArr [search_result (lit ''https://example.test/'')
                  (score_chunk [Num 1] (example_chunk ''x'' ''docs/other.md'' (lit ''h'') [Num (- 1)]))])]\<rparr>
 \<and> filter (\<lambda>c. nlt (weighted (score_chunk [Num 1]
                           (example_chunk ''y'' ''docs/other.md'' (lit ''h'') [Num (- 1)])))
                       (weighted (score_chunk [Num 1] c)))
     [example_chunk ''x'' ''docs/other.md'' (lit ''h'') [Num (- 1)],
      example_chunk ''y'' ''docs/other.md'' (lit ''h'') [Num (- 1)]] = []
 \<and> search_result (lit ''https://example.test/'')
       (score_chunk [Num 1] (example_chunk ''y'' ''docs/other.md'' (lit ''h'') [Num (- 1)]))
   \<noteq> search_result (lit ''https://example.test/'')
       (score_chunk [Num 1] (example_chunk ''x'' ''docs/other.md'' (lit ''h'') [Num (- 1)]))"
proof -
  let ?x = "example_chunk ''x'' ''docs/other.md'' (lit ''h'') [Num (- 1)]"
  let ?y = "example_chunk ''y'' ''docs/other.md'' (lit ''h'') [Num (- 1)]"
  let ?args = "JObj [(lit ''query'', JStr (lit ''refunds'')), (lit ''topK'', JNum (Num 1))]"
  have n: "normalizeSearchArgs ?args = \<lparr>query = lit ''refunds'', topK = 1\<rparr>"
    by (simp add: normalizeSearchArgs_def lit_simps trunc_def)
  have t: "trim (lit ''refunds'') = lit ''refunds''" "lit ''refunds'' \<noteq> []"
    by (simp_all add: trim_def lit_simps is_ws_def)
  have w: "weighted (score_chunk [Num 1] ?x) = Num (- 1)"
    "weighted (score_chunk [Num 1] ?y) = Num (- 1)"
    by (simp_all add: score_chunk_simps example_chunk_simps cosineSim_1_m1
          sourceWeight_examples fl_m1)
  have c: "\<not> positive (by_weighted_desc (score_chunk [Num 1] ?x) (score_chunk [Num 1] ?y))"
    by (simp add: by_weighted_desc_def w nsub_def fl_0 positive_def)
  have s: "scored js_sort [Num 1] [?x, ?y] 1 = [score_chunk [Num 1] ?x]"
    using c by (simp add: scored_def slice0_def)
  have 1: "fst (search_tool js_sort (\<lambda>q m. Inr [Num 1]) (lit ''https://example.test/'')
         \<lparr>model = lit ''m'', chunks = [?x, ?y]\<rparr> ?args)
     = \<lparr>isError = False,
        content = JObj [(lit ''results'',
          JArr [search_result (lit ''https://example.test/'') (score_chunk [Num 1] ?x)])]\<rparr>"
    by (simp add: search_tool_def n t s Let_def)
  have 2: "filter (\<lambda>c. nlt (weighted (score_chunk [Num 1] ?y)) (weighted (score_chunk [Num 1] c)))
            [?x, ?y] = []"
    by (simp add: w)
  have 3: "search_result (lit ''https://example.test/'') (score_chunk [Num 1] ?y)
         \<noteq> search_result (lit ''https://example.test/'') (score_chunk [Num 1] ?x)"
    by (simp add: search_result_def score_chunk_simps example_chunk_simps lit_simps)
  from 1 2 3 show ?thesis by blast
qed

section \<open>Ranking: the claims\<close>

lemma example_weights:
  "weighted (score_chunk [Num 1] (example_chunk i ''docs/api.md'' h [Num 1])) = Num d115"
  "weighted (score_chunk [Num 1] (example_chunk i ''docs/faq.md'' h [Num 1])) = Num d095"
  "weighted (score_chunk [Num 1] (example_chunk i ''docs/other.md'' h [Num 1])) = Num 1"
  "weighted (score_chunk [Num 1] (example_chunk i ''docs/api.md'' h [Num (- 1)])) = Num (- d115)"
  "weighted (score_chunk [Num 1] (example_chunk i ''docs/faq.md'' h [Num (- 1)])) = Num (- d095)"
  "weighted (score_chunk [Num 1] (example_chunk i ''docs/other.md'' h [Num (- 1)])) = Num (- 1)"
  "weighted (score_chunk [Num 1] (example_chunk i ''docs/other.md'' h [Num 0])) = Num 0"
  by (simp_all add: score_chunk_simps example_chunk_simps cosineSim_1_1 cosineSim_1_m1
        cosineSim_1_0 sourceWeight_examples fl_literals fl_1 fl_m1 fl_0)

lemma example_ids:
  "id' (chunk (score_chunk q (example_chunk i src h e))) = lit i"
  "id' (chunk (scripts_score_chunk q s (example_chunk i src h e))) = lit i"
  by (simp_all add: score_chunk_simps scripts_score_chunk_simps example_chunk_simps)

lemma literal_order: "0 < d095" "d095 < 1" "1 < d115" "1 < d135" "5 / 4 < d135" "d115 < d135"
  by (simp_all add: d095_def d115_def d135_def)

text \<open>
  C6, as amended. For every query vector, chunk list and \<open>topK\<close> that is not negative, the
  search handler's ranking returns \<open>min(topK, number of chunks)\<close> results, so at most
  \<open>topK\<close>. When every weighted score is a finite number, the results are sorted by weighted
  score descending, ties are broken by the order of the index (the results with a given
  weighted score are an initial part of the chunks with that score, in index order), and
  the list is the same for every engine whose sort conforms to ECMAScript, so two calls
  with the same inputs return the same list.
\<close>

theorem scored_sorted:
  assumes "conforming srt" and "0 \<le> k"
  shows "int (length (scored srt qEmb cs k)) = min k (int (length cs))
       \<and> (finite_weights (map (score_chunk qEmb) cs) \<longrightarrow>
            sorted_wrt (\<lambda>a b. nle (weighted b) (weighted a)) (scored srt qEmb cs k)
          \<and> (\<forall>w. prefix (filter (\<lambda>e. weighted e = w) (scored srt qEmb cs k))
                         (filter (\<lambda>e. weighted e = w) (map (score_chunk qEmb) cs)))
          \<and> (\<forall>srt'. conforming srt' \<longrightarrow> scored srt' qEmb cs k = scored srt qEmb cs k))"
proof (intro conjI impI allI)
  show "int (length (scored srt qEmb cs k)) = min k (int (length cs))"
    using assms by (simp add: scored_def slice0_length conforming_length)
next
  let ?xs = "map (score_chunk qEmb) cs"
  let ?S = "sort_key (\<lambda>e. - wreal e) ?xs"
  assume fw: "finite_weights ?xs"
  have R: "scored srt qEmb cs k = take (nat k) ?S"
    using assms fw by (intro scored_eq)
  show "sorted_wrt (\<lambda>a b. nle (weighted b) (weighted a)) (scored srt qEmb cs k)"
    unfolding R using sorted_desc [OF fw] by (rule sorted_wrt_take)
  fix w
  have "prefix (filter (\<lambda>e. weighted e = w) (take (nat k) ?S)) (filter (\<lambda>e. weighted e = w) ?S)"
    by (intro filter_mono_prefix take_is_prefix)
  then show "prefix (filter (\<lambda>e. weighted e = w) (scored srt qEmb cs k))
                    (filter (\<lambda>e. weighted e = w) (map (score_chunk qEmb) cs))"
    unfolding R by (simp add: sort_key_stable_weighted [OF fw])
next
  fix srt' :: "Scored sorter"
  assume fw: "finite_weights (map (score_chunk qEmb) cs)" and c: "conforming srt'"
  show "scored srt' qEmb cs k = scored srt qEmb cs k"
    using scored_eq [OF c fw assms(2)] scored_eq [OF assms(1) fw assms(2)] by simp
qed

text \<open>
  Witness for C6: three chunks with the same similarity, two of them from the same
  source, and \<open>topK = 2\<close>. The api chunk comes first and the tie between the two others
  goes to the one that is first in the index.
\<close>

theorem scored_sorted_witness:
  "map (\<lambda>e. id' (chunk e))
     (scored js_sort [Num 1] [example_chunk ''x'' ''docs/other.md'' (lit ''h'') [Num 1],
                              example_chunk ''y'' ''docs/other.md'' (lit ''h'') [Num 1],
                              example_chunk ''a'' ''docs/api.md'' (lit ''h'') [Num 1]] 2)
     = [lit ''a'', lit ''x'']
 \<and> sorted_wrt (\<lambda>a b. nle (weighted b) (weighted a))
     (scored js_sort [Num 1] [example_chunk ''x'' ''docs/other.md'' (lit ''h'') [Num 1],
                              example_chunk ''y'' ''docs/other.md'' (lit ''h'') [Num 1],
                              example_chunk ''a'' ''docs/api.md'' (lit ''h'') [Num 1]] 2)"
proof -
  let ?cs = "[example_chunk ''x'' ''docs/other.md'' (lit ''h'') [Num 1],
              example_chunk ''y'' ''docs/other.md'' (lit ''h'') [Num 1],
              example_chunk ''a'' ''docs/api.md'' (lit ''h'') [Num 1]]"
  have fw: "finite_weights (map (score_chunk [Num 1]) ?cs)"
    by (simp add: finite_weights_def example_weights)
  have k: "(0::int) \<le> 2" by simp
  note inst = scored_sorted [OF conforming_js_sort k, of "[Num 1]" ?cs]
  have 1: "sorted_wrt (\<lambda>a b. nle (weighted b) (weighted a)) (scored js_sort [Num 1] ?cs 2)"
    using inst [THEN conjunct2, THEN mp, OF fw] by blast
  have "length (scored js_sort [Num 1] ?cs 2) = 2"
    using inst [THEN conjunct1] by simp
  have 2: "map (\<lambda>e. id' (chunk e)) (scored js_sort [Num 1] ?cs 2) = [lit ''a'', lit ''x'']"
    using literal_order
    by (simp add: scored_eq [OF conforming_js_sort fw k] wreal_def example_weights example_ids)
  from 1 2 show ?thesis by simp
qed

text \<open>
  Counterexample to C6 as stated: the query vector \<open>[1, 0]\<close> and three chunks with the
  embeddings \<open>[1, 0]\<close>, \<open>[1]\<close> and \<open>[1, 0]\<close>, the last one from \<open>docs/api.md\<close>. The second
  embedding is shorter than the query vector, so the weighted scores are 1, NaN and 1.15.
  The comparator returns NaN on every pair with the second chunk; the insertion sort
  leaves the index order, and no rearrangement of the three entries is sorted by weighted
  score descending.
\<close>

theorem scored_sorted_counterexample:
  "map weighted (map (score_chunk [Num 1, Num 0])
     [example_chunk ''o'' ''docs/other.md'' (lit ''h'') [Num 1, Num 0],
      example_chunk ''s'' ''docs/other.md'' (lit ''h'') [Num 1],
      example_chunk ''a'' ''docs/api.md'' (lit ''h'') [Num 1, Num 0]]) = [Num 1, NaN, Num d115]
 \<and> map (\<lambda>e. id' (chunk e))
     (scored js_sort [Num 1, Num 0]
       [example_chunk ''o'' ''docs/other.md'' (lit ''h'') [Num 1, Num 0],
        example_chunk ''s'' ''docs/other.md'' (lit ''h'') [Num 1],
        example_chunk ''a'' ''docs/api.md'' (lit ''h'') [Num 1, Num 0]] 8)
     = [lit ''o'', lit ''s'', lit ''a'']
 \<and> \<not> (\<exists>srt. conforming srt \<and>
        sorted_wrt (\<lambda>a b. nle (weighted b) (weighted a))
          (scored srt [Num 1, Num 0]
            [example_chunk ''o'' ''docs/other.md'' (lit ''h'') [Num 1, Num 0],
             example_chunk ''s'' ''docs/other.md'' (lit ''h'') [Num 1],
             example_chunk ''a'' ''docs/api.md'' (lit ''h'') [Num 1, Num 0]] 8))"
proof -
  let ?q = "[Num 1, Num 0]"
  let ?o = "example_chunk ''o'' ''docs/other.md'' (lit ''h'') [Num 1, Num 0]"
  let ?s = "example_chunk ''s'' ''docs/other.md'' (lit ''h'') [Num 1]"
  let ?a = "example_chunk ''a'' ''docs/api.md'' (lit ''h'') [Num 1, Num 0]"
  have w: "weighted (score_chunk ?q ?o) = Num 1" "weighted (score_chunk ?q ?s) = NaN"
    "weighted (score_chunk ?q ?a) = Num d115"
    by (simp_all add: score_chunk_simps example_chunk_simps cosineSim_10_10 cosineSim_10_1
          sourceWeight_examples fl_literals fl_1)
  have 1: "map weighted (map (score_chunk ?q) [?o, ?s, ?a]) = [Num 1, NaN, Num d115]"
    by (simp add: w)
  have c: "\<not> positive (by_weighted_desc (score_chunk ?q ?s) (score_chunk ?q ?a))"
    "\<not> positive (by_weighted_desc (score_chunk ?q ?o) (score_chunk ?q ?s))"
    by (simp_all add: by_weighted_desc_def w nsub_def positive_def)
  have "scored js_sort ?q [?o, ?s, ?a] 8 = map (score_chunk ?q) [?o, ?s, ?a]"
    using c by (simp add: scored_def slice0_def)
  then have 2: "map (\<lambda>e. id' (chunk e)) (scored js_sort ?q [?o, ?s, ?a] 8)
      = [lit ''o'', lit ''s'', lit ''a'']"
    by (simp add: example_ids)
  have 3: "\<not> (\<exists>srt. conforming srt \<and>
        sorted_wrt (\<lambda>a b. nle (weighted b) (weighted a)) (scored srt ?q [?o, ?s, ?a] 8))"
  proof
    assume "\<exists>srt. conforming srt \<and>
        sorted_wrt (\<lambda>a b. nle (weighted b) (weighted a)) (scored srt ?q [?o, ?s, ?a] 8)"
    then obtain srt where cf: "conforming srt"
      and so: "sorted_wrt (\<lambda>a b. nle (weighted b) (weighted a)) (scored srt ?q [?o, ?s, ?a] 8)"
      by blast
    let ?ys = "srt by_weighted_desc (map (score_chunk ?q) [?o, ?s, ?a])"
    have l: "length ?ys = 3"
      using conforming_length [OF cf] by simp
    then have R: "scored srt ?q [?o, ?s, ?a] 8 = ?ys"
      by (simp add: scored_def slice0_def)
    have "score_chunk ?q ?s \<in> set ?ys"
      using conforming_set [OF cf] by simp
    then have "length ?ys \<le> 1"
      using so w(2) unfolding R by (intro NaN_unsorted)
    then show False using l by simp
  qed
  from 1 2 3 show ?thesis by blast
qed

text \<open>For a raw similarity in the normal range the rounded product with 1.15 is above
  the rounded product with 0.95.\<close>

lemma weight_gap:
  assumes r: "1 / 2 ^ 1022 \<le> r" and x: "fl (r * d115) = Num x" and y: "fl (r * d095) = Num y"
  shows "y < x"
proof -
  have r0: "0 < r" using r by (rule less_le_trans [rotated]) simp
  have a: "\<bar>r * d115\<bar> = r * d115" "\<bar>r * d095\<bar> = r * d095"
    using r0 literal_order by (simp_all add: abs_mult d115_def d095_def)
  have ex: "\<bar>x - r * d115\<bar> \<le> r * d115 / 2 ^ 53 + 1 / 2 ^ 1075"
    using fl_error [OF x] a by simp
  have ey: "\<bar>y - r * d095\<bar> \<le> r * d095 / 2 ^ 53 + 1 / 2 ^ 1075"
    using fl_error [OF y] a by simp
  have b: "r * d115 \<le> r * (116 / 100)" "r * (114 / 100) \<le> r * d115"
    "r * d095 \<le> r * (96 / 100)"
    using r0 literal_bounds by (simp_all add: mult_left_mono)
  have lo: "r * (114 / 100) - r * (116 / 100) / 2 ^ 53 - 1 / 2 ^ 1075 \<le> x"
  proof -
    have "r * d115 / 2 ^ 53 \<le> r * (116 / 100) / 2 ^ 53"
      using b(1) by (intro divide_right_mono) simp_all
    then show ?thesis using ex b(2) by linarith
  qed
  have hi: "y \<le> r * (96 / 100) + r * (96 / 100) / 2 ^ 53 + 1 / 2 ^ 1075"
  proof -
    have "r * d095 / 2 ^ 53 \<le> r * (96 / 100) / 2 ^ 53"
      using b(3) by (intro divide_right_mono) simp_all
    then show ?thesis using ey b(3) by linarith
  qed
  have "(2::real) / 2 ^ 1075 < (1 / 2 ^ 1022) * (17 / 100)" by simp
  also have "\<dots> \<le> r * (17 / 100)" using r by (intro mult_right_mono) simp_all
  finally have g: "2 / 2 ^ 1075 < r * (17 / 100)" .
  have "r * (116 / 100) / 2 ^ 53 + r * (96 / 100) / 2 ^ 53 \<le> r * (1 / 100)"
    using r0 by (simp add: field_simps)
  then show ?thesis using lo hi g by linarith
qed

text \<open>The smallest positive double \<open>2 ^ -1074\<close> as a raw similarity: its products with
  1.15 and with 0.95 both round to it.\<close>

lemma subnormal_facts:
  assumes t: "t = 1 / 2 ^ 1074"
  shows "fl t = Num t" "fl (t * t) = Num 0" "fl (t * d115) = Num t" "fl (t * d095) = Num t"
proof -
  have p: "2 powi (- 1074) = t" by (simp add: t power_int_minus)
  have t0: "0 < t" by (simp add: t)
  have th: "t < 1 / 2" by (simp add: t)
  have small: "t < 2 ^ 1024" by (simp add: t)
  have "double t"
    by (rule double_exact [of t 1 "- 1074"]) (simp_all add: t power_int_minus)
  then show 1: "fl t = Num t" by (simp add: double_def)
  have "(2::real) powi (- 1074 + - 1074) = 2 powi (- 1074) * 2 powi (- 1074)"
    by (rule power_int_add) simp
  then have tt: "t * t = 2 powi (- 2148)"
    unfolding p by simp
  have m: "max (- 2148 - 52) (- 1074) = (- 1074 :: int)"
    "max (- 1074 - 52) (- 1074) = (- 1074 :: int)"
    "max (- 1075 - 52) (- 1074) = (- 1074 :: int)" by simp_all
  have d: "1 < d115" "d115 < 3 / 2" "1 / 2 < d095" "d095 < 1"
    by (simp_all add: d115_def d095_def)
  have a: "\<bar>t * d115\<bar> = t * d115" "\<bar>t * d095\<bar> = t * d095"
    using t0 d by (simp_all add: abs_mult)
  have up: "(2::real) powi (- 1074 + 1) = t * 2"
  proof -
    have "(2::real) powi (- 1074 + 1) = 2 powi (- 1074) * 2 powi 1"
      by (rule power_int_add) simp
    then show ?thesis unfolding p by simp
  qed
  have dn: "(2::real) powi (- 1075) = t * (1 / 2)"
  proof -
    have "(2::real) powi (- 1075 + 1) = 2 powi (- 1075) * 2 powi 1"
      by (rule power_int_add) simp
    then have "t = 2 powi (- 1075) * 2" using p by simp
    then show ?thesis by simp
  qed
  have up': "(2::real) powi (- 1075 + 1) = t" using p by simp
  note ev0 = fl_eval [of "t * t" "- 2148" 0, unfolded m p]
  have "fl (t * t) = Num (real_of_int 0 * t)"
  proof (rule ev0)
    show "t * t \<noteq> 0" using t0 by simp
    show "2 powi (- 2148) \<le> \<bar>t * t\<bar>" unfolding tt by simp
    have "(2::real) powi (- 2148) < 2 powi (- 2148 + 1)"
      by (intro power_int_strict_increasing) simp_all
    then show "\<bar>t * t\<bar> < 2 powi (- 2148 + 1)"
      unfolding tt by simp
    show "\<bar>t * t / t - real_of_int 0\<bar> < 1 / 2" using t0 th by simp
    show "\<bar>real_of_int 0 * t\<bar> < 2 ^ 1024" by simp
  qed
  then show "fl (t * t) = Num 0" by simp
  note ev1 = fl_eval [of "t * d115" "- 1074" 1, unfolded m up p a]
  have "fl (t * d115) = Num (real_of_int 1 * t)"
  proof (rule ev1)
    show "t * d115 \<noteq> 0" using t0 d by simp
    have "t * 1 \<le> t * d115" using t0 d by (intro mult_left_mono) simp_all
    then show "t \<le> t * d115" by simp
    show "t * d115 < t * 2" using t0 d by (intro mult_strict_left_mono) simp_all
    show "\<bar>t * d115 / t - real_of_int 1\<bar> < 1 / 2" using t0 d by simp
    show "\<bar>real_of_int 1 * t\<bar> < 2 ^ 1024" using small t0 by simp
  qed
  then show "fl (t * d115) = Num t" by simp
  note ev2 = fl_eval [of "t * d095" "- 1075" 1, unfolded m up' dn p a]
  have "fl (t * d095) = Num (real_of_int 1 * t)"
  proof (rule ev2)
    show "t * d095 \<noteq> 0" using t0 d by simp
    show "t * (1 / 2) \<le> t * d095" using t0 d by (intro mult_left_mono) simp_all
    have "t * d095 < t * 1" using t0 d by (intro mult_strict_left_mono) simp_all
    then show "t * d095 < t" by simp
    show "\<bar>t * d095 / t - real_of_int 1\<bar> < 1 / 2" using t0 d by simp
    show "\<bar>real_of_int 1 * t\<bar> < 2 ^ 1024" using small t0 by simp
  qed
  then show "fl (t * d095) = Num t" by simp
qed

lemma subnormal_similarity:
  assumes t: "t = 1 / 2 ^ 1074"
  shows "cosineSim [Num 1, Num 0] [Num t, Num 1] = Num t"
proof -
  note f = subnormal_facts [OF t]
  have t0: "t \<noteq> 0" by (simp add: t)
  have q: "norm' [Num 1, Num 0] = Num 1"
    by (simp add: norm'_def dot_def fl_1 fl_0)
  have e: "norm' [Num t, Num 1] = Num 1"
    by (simp add: norm'_def dot_def f fl_1 fl_0)
  have d: "dot [Num 1, Num 0] [Num t, Num 1] = Num t"
    by (simp add: dot_def f fl_0)
  show ?thesis
    by (simp add: cosineSim_def Let_def q e d fl_1 f)
qed

lemma subnormal_tie:
  assumes t: "t = 1 / 2 ^ 1074"
  shows "weighted (score_chunk [Num 1, Num 0] (example_chunk i ''docs/api.md'' h [Num t, Num 1]))
           = Num t"
    and "weighted (score_chunk [Num 1, Num 0] (example_chunk i ''docs/faq.md'' h [Num t, Num 1]))
           = Num t"
  by (simp_all add: score_chunk_simps example_chunk_simps subnormal_similarity [OF t]
        sourceWeight_examples subnormal_facts [OF t])

lemma subnormal_order:
  assumes t: "t = 1 / 2 ^ 1074"
  shows "scored js_sort [Num 1, Num 0]
           [example_chunk ''f'' ''docs/faq.md'' (lit ''h'') [Num t, Num 1],
            example_chunk ''a'' ''docs/api.md'' (lit ''h'') [Num t, Num 1]] 2
       = [score_chunk [Num 1, Num 0] (example_chunk ''f'' ''docs/faq.md'' (lit ''h'') [Num t, Num 1]),
          score_chunk [Num 1, Num 0] (example_chunk ''a'' ''docs/api.md'' (lit ''h'') [Num t, Num 1])]"
proof -
  let ?f = "example_chunk ''f'' ''docs/faq.md'' (lit ''h'') [Num t, Num 1]"
  let ?a = "example_chunk ''a'' ''docs/api.md'' (lit ''h'') [Num t, Num 1]"
  have fw: "finite_weights (map (score_chunk [Num 1, Num 0]) [?f, ?a])"
    by (simp add: finite_weights_def subnormal_tie [OF t])
  have k: "(0::int) \<le> 2" by simp
  show ?thesis
    by (simp add: scored_eq [OF conforming_js_sort fw k] wreal_def subnormal_tie [OF t])
qed

text \<open>
  C8, as amended. Let an index hold a chunk from \<open>docs/api.md\<close> (source weight 1.15) and
  a chunk from \<open>docs/faq.md\<close> (source weight 0.95) whose raw similarities to the query
  vector are the same finite number, at least \<open>2 ^ -1022\<close> (the smallest positive normal
  double), and let every weighted score of the index be a finite number. Then wherever the
  faq chunk appears in the search result order, the api chunk appears before it, for
  every engine whose sort conforms to ECMAScript.
\<close>

theorem api_before_faq:
  assumes cf: "conforming srt"
    and fw: "finite_weights (map (score_chunk qEmb) cs)"
    and k: "0 \<le> k"
    and a: "a \<in> set cs" "source (meta a) = lit ''docs/api.md''"
    and f: "source (meta f) = lit ''docs/faq.md''"
    and r: "cosineSim qEmb (embedding a) = Num r" "cosineSim qEmb (embedding f) = Num r"
      "1 / 2 ^ 1022 \<le> r"
    and j: "j < length (scored srt qEmb cs k)" "scored srt qEmb cs k ! j = score_chunk qEmb f"
  shows "\<exists>i<j. scored srt qEmb cs k ! i = score_chunk qEmb a"
proof -
  let ?xs = "map (score_chunk qEmb) cs"
  let ?S = "sort_key (\<lambda>e. - wreal e) ?xs"
  let ?ea = "score_chunk qEmb a" and ?ef = "score_chunk qEmb f"
  have R: "scored srt qEmb cs k = take (nat k) ?S"
    using cf fw k by (rule scored_eq)
  have jS: "j < length ?S" "j < nat k" "?S ! j = ?ef"
    using j unfolding R by simp_all
  have "?ef \<in> set ?S" using jS(1,3) by (metis nth_mem)
  then have fx: "?ef \<in> set ?xs" by simp
  have ax: "?ea \<in> set ?xs" using a(1) by simp
  obtain x y where xy: "weighted ?ea = Num x" "weighted ?ef = Num y"
    using fw ax fx unfolding finite_weights_def by blast
  then have "fl (r * d115) = Num x" "fl (r * d095) = Num y"
    using a(2) f r(1,2) by (simp_all add: score_chunk_simps sourceWeight_examples)
  then have lt: "y < x" using r(3) by (intro weight_gap)
  have "?ea \<in> set ?S" using ax by simp
  then obtain i where i: "i < length ?S" "?S ! i = ?ea"
    by (metis in_set_conv_nth)
  have sorted: "sorted_wrt (\<lambda>x y. nle (weighted y) (weighted x)) ?S"
    by (rule sorted_desc [OF fw])
  have "i < j"
  proof (rule ccontr)
    assume "\<not> i < j"
    then consider "i = j" | "j < i" by linarith
    then show False
    proof cases
      case 1
      then have "weighted ?ea = weighted ?ef" using i jS by simp
      then show False using xy lt by simp
    next
      case 2
      then have "nle (weighted (?S ! i)) (weighted (?S ! j))"
        using sorted i(1) by (simp add: sorted_wrt_iff_nth_less)
      then show False using i jS xy lt by simp
    qed
  qed
  moreover from this have "scored srt qEmb cs k ! i = ?ea"
    unfolding R using i jS by simp
  ultimately show ?thesis by blast
qed

text \<open>
  Witness for C8: the faq chunk is first in the index, both similarities are 1, and the
  api chunk is first in the result.
\<close>

theorem api_before_faq_witness:
  "scored js_sort [Num 1] [example_chunk ''f'' ''docs/faq.md'' (lit ''h'') [Num 1],
                           example_chunk ''a'' ''docs/api.md'' (lit ''h'') [Num 1]] 2 ! 0
   = score_chunk [Num 1] (example_chunk ''a'' ''docs/api.md'' (lit ''h'') [Num 1])"
proof -
  let ?a = "example_chunk ''a'' ''docs/api.md'' (lit ''h'') [Num 1]"
  let ?f = "example_chunk ''f'' ''docs/faq.md'' (lit ''h'') [Num 1]"
  have fw: "finite_weights (map (score_chunk [Num 1]) [?f, ?a])"
    by (simp add: finite_weights_def example_weights)
  have k: "(0::int) \<le> 2" by simp
  have S: "scored js_sort [Num 1] [?f, ?a] 2 = [score_chunk [Num 1] ?a, score_chunk [Num 1] ?f]"
    using literal_order
    by (simp add: scored_eq [OF conforming_js_sort fw k] wreal_def example_weights)
  have h2: "?a \<in> set [?f, ?a]" by simp
  have h3: "source (meta ?a) = lit ''docs/api.md''" "source (meta ?f) = lit ''docs/faq.md''"
    by (simp_all add: example_chunk_simps)
  have h4: "cosineSim [Num 1] (embedding ?a) = Num 1" "cosineSim [Num 1] (embedding ?f) = Num 1"
    by (simp_all add: example_chunk_simps cosineSim_1_1)
  have h5: "(1::real) / 2 ^ 1022 \<le> 1" by simp
  have h6: "1 < length (scored js_sort [Num 1] [?f, ?a] 2)"
    "scored js_sort [Num 1] [?f, ?a] 2 ! 1 = score_chunk [Num 1] ?f"
    by (simp_all add: S)
  have "\<exists>i<1. scored js_sort [Num 1] [?f, ?a] 2 ! i = score_chunk [Num 1] ?a"
    by (rule api_before_faq [OF conforming_js_sort fw k h2 h3 h4 h5 h6])
  then show ?thesis by simp
qed

text \<open>
  Counterexample to C8 as stated, twice. First, both chunks have the raw similarity \<open>-1\<close>
  to the query vector: the weighted scores are \<open>-1.15\<close> and \<open>-0.95\<close>, and the faq chunk
  ranks first. Second, both chunks have the embedding \<open>[2 ^ -1074, 1]\<close> and the query
  vector is \<open>[1, 0]\<close>: both raw similarities are the positive double \<open>2 ^ -1074\<close>, both
  weighted scores round to it, and the faq chunk, first in the index, stays first.
\<close>

theorem api_before_faq_counterexample:
  "cosineSim [Num 1] (embedding (example_chunk ''a'' ''docs/api.md'' (lit ''h'') [Num (- 1)])) =
   cosineSim [Num 1] (embedding (example_chunk ''f'' ''docs/faq.md'' (lit ''h'') [Num (- 1)]))
 \<and> map (\<lambda>e. id' (chunk e))
      (scored js_sort [Num 1] [example_chunk ''a'' ''docs/api.md'' (lit ''h'') [Num (- 1)],
                               example_chunk ''f'' ''docs/faq.md'' (lit ''h'') [Num (- 1)]] 2)
   = [lit ''f'', lit ''a'']
 \<and> cosineSim [Num 1, Num 0]
      (embedding (example_chunk ''a'' ''docs/api.md'' (lit ''h'') [Num (1 / 2 ^ 1074), Num 1])) =
   cosineSim [Num 1, Num 0]
      (embedding (example_chunk ''f'' ''docs/faq.md'' (lit ''h'') [Num (1 / 2 ^ 1074), Num 1]))
 \<and> positive (cosineSim [Num 1, Num 0]
      (embedding (example_chunk ''a'' ''docs/api.md'' (lit ''h'') [Num (1 / 2 ^ 1074), Num 1])))
 \<and> map (\<lambda>e. id' (chunk e))
      (scored js_sort [Num 1, Num 0]
         [example_chunk ''f'' ''docs/faq.md'' (lit ''h'') [Num (1 / 2 ^ 1074), Num 1],
          example_chunk ''a'' ''docs/api.md'' (lit ''h'') [Num (1 / 2 ^ 1074), Num 1]] 2)
   = [lit ''f'', lit ''a'']"
proof -
  let ?a = "example_chunk ''a'' ''docs/api.md'' (lit ''h'') [Num (- 1)]"
  let ?f = "example_chunk ''f'' ''docs/faq.md'' (lit ''h'') [Num (- 1)]"
  have fw: "finite_weights (map (score_chunk [Num 1]) [?a, ?f])"
    by (simp add: finite_weights_def example_weights)
  have k: "(0::int) \<le> 2" by simp
  have 1: "map (\<lambda>e. id' (chunk e)) (scored js_sort [Num 1] [?a, ?f] 2) = [lit ''f'', lit ''a'']"
    using literal_order
    by (simp add: scored_eq [OF conforming_js_sort fw k] wreal_def example_weights example_ids)
  define t :: real where "t = 1 / 2 ^ 1074"
  have t0: "0 < t" by (simp add: t_def)
  let ?a' = "example_chunk ''a'' ''docs/api.md'' (lit ''h'') [Num t, Num 1]"
  let ?f' = "example_chunk ''f'' ''docs/faq.md'' (lit ''h'') [Num t, Num 1]"
  have 2: "cosineSim [Num 1, Num 0] (embedding ?a') = cosineSim [Num 1, Num 0] (embedding ?f')"
    by (simp add: example_chunk_simps)
  have 3: "positive (cosineSim [Num 1, Num 0] (embedding ?a'))"
    using t0 by (simp add: example_chunk_simps subnormal_similarity [OF t_def] positive_def)
  have 4: "map (\<lambda>e. id' (chunk e)) (scored js_sort [Num 1, Num 0] [?f', ?a'] 2)
      = [lit ''f'', lit ''a'']"
    by (simp add: subnormal_order [OF t_def] example_ids)
  show ?thesis
    using 1 2 3 4 unfolding t_def by (simp add: example_chunk_simps)
qed

lemma example_scripts_weights:
  "weighted (scripts_score_chunk [Num 1] kw_retry
     (example_chunk i ''docs/other.md'' (lit ''h'') [Num 1])) = Num 1"
  "weighted (scripts_score_chunk [Num 1] kw_retry
     (example_chunk i ''docs/faq.md'' (lit ''h'') [Num 1])) = Num d095"
  "weighted (scripts_score_chunk [Num 1] kw_retry
     (example_chunk i ''docs/other.md'' kw_retry [Num 1])) = Num d135"
  "weighted (scripts_score_chunk [Num 1] kw_retry
     (example_chunk i ''docs/api.md'' (lit ''h'') [Num 1])) = Num d135"
  "weighted (scripts_score_chunk [Num 1] kw_retry
     (example_chunk i ''docs/other.md'' kw_backoff [Num 1])) = Num (5 / 4)"
  "weighted (scripts_score_chunk [Num 1] kw_retry
     (example_chunk i ''docs/other.md'' (lit ''h'') [Num (- 1)])) = Num (- 1)"
  "weighted (scripts_score_chunk [Num 1] kw_retry
     (example_chunk i ''docs/other.md'' (lit ''h'') [Num 0])) = Num 0"
  by (simp_all add: scripts_score_chunk_simps example_chunk_simps cosineSim_1_1 cosineSim_1_m1
        cosineSim_1_0 scripts_sourceWeight_examples headingWeight_examples fl_literals
        fl_1 fl_m1 fl_0)

lemma finite_weights_iff:
  "finite_weights es \<longleftrightarrow> (\<forall>e\<in>set es. weighted e \<noteq> NaN \<and> weighted e \<noteq> PosInf \<and> weighted e \<noteq> NegInf)"
proof -
  have "(\<exists>x. v = Num x) \<longleftrightarrow> v \<noteq> NaN \<and> v \<noteq> PosInf \<and> v \<noteq> NegInf" for v
    by (cases v) simp_all
  then show ?thesis by (simp add: finite_weights_def)
qed

text \<open>
  C2, as amended. The three rankers sort all chunks by weighted score descending and
  return the first entries, as the specification's ranker does, whenever every weighted
  score is a finite number; they differ in the weights and in the cut. The search tool of
  src/mcp_remote.ts uses \<open>raw * sourceWeight(source)\<close> with no heading weight (a heading
  weight that is always 1) and returns the first \<open>topK\<close>; the \<open>/search\<close> handler of
  scripts/server.ts uses \<open>raw * sourceWeight(source) * headingWeight(heading, query)\<close> with
  the scripts' source weights and returns the first \<open>topK\<close>; the loop of scripts/search.ts
  uses the same score and returns the first five.
\<close>

theorem ranker_variants:
  assumes cf: "conforming srt" and k: "0 \<le> k"
  shows "(finite_weights (map (score_chunk qEmb) cs) \<longrightarrow>
            scored srt qEmb cs k = rank_spec sourceWeight (\<lambda>h q. Num 1) qEmb cs q (nat k))
       \<and> (finite_weights (map (scripts_score_chunk qEmb q) cs) \<longrightarrow>
            server_hits srt qEmb cs q k =
              rank_spec scripts_sourceWeight headingWeight qEmb cs q (nat k)
          \<and> repl_scored srt qEmb cs q =
              rank_spec scripts_sourceWeight headingWeight qEmb cs q 5)"
proof (intro conjI impI)
  assume fw: "finite_weights (map (score_chunk qEmb) cs)"
  have m: "map (score_chunk qEmb) cs =
        map (\<lambda>c. let raw = cosineSim qEmb (embedding c)
                 in \<lparr>chunk = c, score = raw,
                     weighted = nmul (nmul raw (sourceWeight (source (meta c)))) (Num 1)\<rparr>) cs"
    by (intro map_cong refl score_chunk_spec)
  have "scored srt qEmb cs k = take (nat k) (sort_key (\<lambda>e. - wreal e) (map (score_chunk qEmb) cs))"
    using cf fw k by (rule scored_eq)
  then show "scored srt qEmb cs k = rank_spec sourceWeight (\<lambda>h q. Num 1) qEmb cs q (nat k)"
    unfolding rank_spec_def m .
next
  assume fw: "finite_weights (map (scripts_score_chunk qEmb q) cs)"
  have ms: "map (scripts_score_chunk qEmb q) cs =
     map (\<lambda>c. let raw = cosineSim qEmb (embedding c)
                 in \<lparr>chunk = c, score = raw,
                     weighted = nmul (nmul raw (scripts_sourceWeight (source (meta c))))
                                     (headingWeight (heading (meta c)) q)\<rparr>) cs"
    by (simp add: scripts_score_chunk_def Let_def)
  have "server_hits srt qEmb cs q k =
          take (nat k) (sort_key (\<lambda>e. - wreal e) (map (scripts_score_chunk qEmb q) cs))"
    using cf fw k by (rule server_hits_eq)
  then show "server_hits srt qEmb cs q k =
      rank_spec scripts_sourceWeight headingWeight qEmb cs q (nat k)"
    unfolding rank_spec_def ms .
  have "repl_scored srt qEmb cs q =
          take 5 (sort_key (\<lambda>e. - wreal e) (map (scripts_score_chunk qEmb q) cs))"
    using cf fw by (rule repl_scored_eq)
  then show "repl_scored srt qEmb cs q =
      rank_spec scripts_sourceWeight headingWeight qEmb cs q 5"
    unfolding rank_spec_def ms .
qed

text \<open>
  Witness for C2: the seven example chunks, the query vector \<open>[1]\<close> and the retry keyword
  as the query. The search tool with \<open>topK = 2\<close> returns the api chunk and, of the three
  chunks tied at 1, the first of the index. The \<open>/search\<close> handler with \<open>topK = 3\<close> returns
  the chunk with the retry heading before the api chunk (both score 1.35, the former is
  earlier in the index) and then the chunk with the backoff heading. The loop returns five
  of the seven chunks.
\<close>

theorem ranker_variants_witness:
  "scored js_sort [Num 1] example_chunks 2 =
     rank_spec sourceWeight (\<lambda>h q. Num 1) [Num 1] example_chunks kw_retry 2
 \<and> map (\<lambda>e. id' (chunk e)) (scored js_sort [Num 1] example_chunks 2) = [lit ''c4'', lit ''c1'']
 \<and> server_hits js_sort [Num 1] example_chunks kw_retry 3 =
     rank_spec scripts_sourceWeight headingWeight [Num 1] example_chunks kw_retry 3
 \<and> map (\<lambda>e. id' (chunk e)) (server_hits js_sort [Num 1] example_chunks kw_retry 3)
     = [lit ''c3'', lit ''c4'', lit ''c5'']
 \<and> repl_scored js_sort [Num 1] example_chunks kw_retry =
     rank_spec scripts_sourceWeight headingWeight [Num 1] example_chunks kw_retry 5
 \<and> map (\<lambda>e. id' (chunk e)) (repl_scored js_sort [Num 1] example_chunks kw_retry)
     = [lit ''c3'', lit ''c4'', lit ''c5'', lit ''c1'', lit ''c2'']"
proof -
  have fw: "finite_weights (map (score_chunk [Num 1]) example_chunks)"
    by (simp add: finite_weights_def example_chunks_def example_weights)
  have fws: "finite_weights (map (scripts_score_chunk [Num 1] kw_retry) example_chunks)"
    by (simp add: finite_weights_iff example_chunks_def example_scripts_weights)
  have k2: "(0::int) \<le> 2" and k3: "(0::int) \<le> 3" by simp_all
  have 1: "scored js_sort [Num 1] example_chunks 2 =
     rank_spec sourceWeight (\<lambda>h q. Num 1) [Num 1] example_chunks kw_retry 2"
    using ranker_variants [OF conforming_js_sort k2, of "[Num 1]" example_chunks kw_retry,
        THEN conjunct1, THEN mp, OF fw] by simp
  have 3: "server_hits js_sort [Num 1] example_chunks kw_retry 3 =
     rank_spec scripts_sourceWeight headingWeight [Num 1] example_chunks kw_retry 3"
    using ranker_variants [OF conforming_js_sort k3, of "[Num 1]" example_chunks kw_retry,
        THEN conjunct2, THEN mp, OF fws] by simp
  have 5: "repl_scored js_sort [Num 1] example_chunks kw_retry =
     rank_spec scripts_sourceWeight headingWeight [Num 1] example_chunks kw_retry 5"
    using ranker_variants [OF conforming_js_sort k3, of "[Num 1]" example_chunks kw_retry,
        THEN conjunct2, THEN mp, OF fws] by simp
  have 2: "map (\<lambda>e. id' (chunk e)) (scored js_sort [Num 1] example_chunks 2)
      = [lit ''c4'', lit ''c1'']"
    unfolding scored_eq [OF conforming_js_sort fw k2]
    using literal_order
    by (simp add: example_chunks_def wreal_def example_weights example_ids)
  have 4: "map (\<lambda>e. id' (chunk e)) (server_hits js_sort [Num 1] example_chunks kw_retry 3)
      = [lit ''c3'', lit ''c4'', lit ''c5'']"
    unfolding server_hits_eq [OF conforming_js_sort fws k3]
    using literal_order
    by (simp add: example_chunks_def wreal_def example_scripts_weights example_ids)
  have 6: "map (\<lambda>e. id' (chunk e)) (repl_scored js_sort [Num 1] example_chunks kw_retry)
      = [lit ''c3'', lit ''c4'', lit ''c5'', lit ''c1'', lit ''c2'']"
    unfolding repl_scored_eq [OF conforming_js_sort fws]
    using literal_order
    by (simp add: example_chunks_def wreal_def example_scripts_weights example_ids)
  from 1 2 3 4 5 6 show ?thesis by blast
qed

text \<open>
  Counterexample to C2 as stated: the query is the retry keyword and both raw similarities
  are 1; the first chunk has the retry keyword in its heading and the second comes from
  \<open>docs/api.md\<close>. With the heading weight the first chunk scores \<open>1.35\<close> against \<open>1.15\<close>
  and ranks first; the search tool of src/mcp_remote.ts scores it \<open>1\<close> and returns the api
  chunk, with every conforming sort.
\<close>

theorem ranker_counterexample:
  "map (\<lambda>e. id' (chunk e))
     (scored js_sort [Num 1] [example_chunk ''retry'' ''docs/other.md'' kw_retry [Num 1],
                              example_chunk ''api'' ''docs/api.md'' (lit ''h'') [Num 1]] 1)
     = [lit ''api'']
 \<and> map (\<lambda>e. id' (chunk e))
     (rank_spec sourceWeight headingWeight [Num 1]
        [example_chunk ''retry'' ''docs/other.md'' kw_retry [Num 1],
         example_chunk ''api'' ''docs/api.md'' (lit ''h'') [Num 1]] kw_retry 1)
     = [lit ''retry'']
 \<and> \<not> (\<exists>srt. conforming srt \<and>
        scored srt [Num 1] [example_chunk ''retry'' ''docs/other.md'' kw_retry [Num 1],
                            example_chunk ''api'' ''docs/api.md'' (lit ''h'') [Num 1]] 1
        = rank_spec sourceWeight headingWeight [Num 1]
            [example_chunk ''retry'' ''docs/other.md'' kw_retry [Num 1],
             example_chunk ''api'' ''docs/api.md'' (lit ''h'') [Num 1]] kw_retry 1)"
proof -
  let ?r = "example_chunk ''retry'' ''docs/other.md'' kw_retry [Num 1]"
  let ?a = "example_chunk ''api'' ''docs/api.md'' (lit ''h'') [Num 1]"
  have fw: "finite_weights (map (score_chunk [Num 1]) [?r, ?a])"
    by (simp add: finite_weights_def example_weights)
  have k: "(0::int) \<le> 1" by simp
  have mcp: "map (\<lambda>e. id' (chunk e)) (scored srt [Num 1] [?r, ?a] 1) = [lit ''api'']"
    if "conforming srt" for srt
    unfolding scored_eq [OF that fw k]
    using literal_order by (simp add: wreal_def example_weights example_ids)
  have spec: "map (\<lambda>e. id' (chunk e)) (rank_spec sourceWeight headingWeight [Num 1] [?r, ?a] kw_retry 1)
      = [lit ''retry'']"
    using literal_order
    by (simp add: rank_spec_def Let_def wreal_def example_chunk_simps cosineSim_1_1
          sourceWeight_examples headingWeight_examples fl_literals fl_1)
  have ne: "lit ''api'' \<noteq> lit ''retry''"
    by (simp add: lit_simps)
  have "\<not> (\<exists>srt. conforming srt \<and>
        scored srt [Num 1] [?r, ?a] 1 = rank_spec sourceWeight headingWeight [Num 1] [?r, ?a] kw_retry 1)"
  proof
    assume "\<exists>srt. conforming srt \<and>
        scored srt [Num 1] [?r, ?a] 1 = rank_spec sourceWeight headingWeight [Num 1] [?r, ?a] kw_retry 1"
    then obtain srt where "conforming srt"
      and "scored srt [Num 1] [?r, ?a] 1 =
           rank_spec sourceWeight headingWeight [Num 1] [?r, ?a] kw_retry 1"
      by blast
    then have "[lit ''api''] = [lit ''retry'']"
      using mcp spec by metis
    then show False using ne by simp
  qed
  then show ?thesis
    using mcp [OF conforming_js_sort] spec by blast
qed

section \<open>Similarity: the claims\<close>

lemma nsqrt_nonzero: "1 \<le> d \<Longrightarrow> nsqrt (Num d) \<noteq> Num 0"
proof -
  assume d: "1 \<le> d"
  then have "1 \<le> sqrt d" by simp
  moreover have "(1::real) / 2 ^ 1074 \<le> 1" by simp
  ultimately have "1 / 2 ^ 1074 \<le> sqrt d" by linarith
  then have "positive (fl (sqrt d))" by (rule fl_positive)
  then have "fl (sqrt d) \<noteq> Num 0" by (rule positive_not_zero)
  then show ?thesis using d by simp
qed

lemma fl_small_ints: "fl 4 = Num 4" "fl 5 = Num 5"
  using double_int [of 4] double_int [of 5] by (simp_all add: double_def)

lemma norm'_12: "norm' [Num 1, Num 2] \<noteq> Num 0"
proof -
  have "dot [Num 1, Num 2] [Num 1, Num 2] = Num 5"
    by (simp add: dot_def fl_1 fl_small_ints)
  then show ?thesis
    using nsqrt_nonzero [of 5] by (simp add: norm'_def)
qed

lemma norm'_1: "norm' [Num 1] = Num 1"
  by (simp add: norm'_def dot_def fl_1)

text \<open>
  C3, as amended. For vectors of unequal length the similarity computation signals
  nothing: it returns a number in every case. When the first vector is the shorter one,
  the dot product silently ignores the extra components of the second, while the norm of
  the second counts them. When the first vector is the longer one, the dot product is NaN
  and so is the similarity, unless one of the norms is zero, when the similarity is 0.
\<close>

theorem cosineSim_unequal_length:
  "(length a < length b \<longrightarrow>
      dot a b = dot a (take (length a) b) \<and>
      cosineSim a b =
        (if norm' a = Num 0 \<or> norm' b = Num 0 then Num 0
         else ndiv (dot a (take (length a) b)) (nmul (norm' a) (norm' b))))
 \<and> (length b < length a \<longrightarrow>
      dot a b = NaN \<and>
      cosineSim a b = (if norm' a = Num 0 \<or> norm' b = Num 0 then Num 0 else NaN))"
proof (intro conjI impI)
  assume l: "length a < length b"
  then have d: "dot a b = dot a (take (length a) b)"
    using dot_loop_take [of a b "Num 0"] by (simp add: dot_def)
  then show "dot a b = dot a (take (length a) b)" .
  show "cosineSim a b =
        (if norm' a = Num 0 \<or> norm' b = Num 0 then Num 0
         else ndiv (dot a (take (length a) b)) (nmul (norm' a) (norm' b)))"
    unfolding cosineSim_def Let_def d [symmetric] by simp
next
  assume l: "length b < length a"
  then have d: "dot a b = NaN"
    by (simp add: dot_def dot_loop_short)
  then show "dot a b = NaN" .
  show "cosineSim a b = (if norm' a = Num 0 \<or> norm' b = Num 0 then Num 0 else NaN)"
    by (simp add: cosineSim_def Let_def d ndiv_NaN)
qed

text \<open>Witness for C3: \<open>[1]\<close> against \<open>[1, 2]\<close>, in both orders.\<close>

theorem cosineSim_unequal_length_witness:
  "dot [Num 1] [Num 1, Num 2] = dot [Num 1] [Num 1]
 \<and> cosineSim [Num 1] [Num 1, Num 2] =
     ndiv (dot [Num 1] [Num 1]) (nmul (norm' [Num 1]) (norm' [Num 1, Num 2]))
 \<and> cosineSim [Num 1, Num 2] [Num 1] = NaN"
proof -
  have 1: "length [Num 1] < length [Num 1, Num 2]" by simp
  have n: "norm' [Num 1, Num 2] \<noteq> Num 0" "norm' [Num 1] \<noteq> Num 0"
    by (simp_all add: norm'_12 norm'_1)
  note short = cosineSim_unequal_length [of "[Num 1]" "[Num 1, Num 2]", THEN conjunct1, THEN mp,
      OF 1]
  note long = cosineSim_unequal_length [of "[Num 1, Num 2]" "[Num 1]", THEN conjunct2, THEN mp,
      OF 1]
  have A: "dot [Num 1] [Num 1, Num 2] = dot [Num 1] [Num 1]"
    using short [THEN conjunct1] by simp
  have B: "cosineSim [Num 1] [Num 1, Num 2] =
     ndiv (dot [Num 1] [Num 1]) (nmul (norm' [Num 1]) (norm' [Num 1, Num 2]))"
    using short [THEN conjunct2] n by simp
  have C: "cosineSim [Num 1, Num 2] [Num 1] = NaN"
    using long [THEN conjunct2] n by simp
  from A B C show ?thesis by blast
qed

text \<open>
  Counterexample to C3 as stated: \<open>[1]\<close> and \<open>[1, 0]\<close> have unequal length; in one order
  the similarity is 1, as for \<open>[1]\<close> and \<open>[1]\<close>, and in the other it is NaN. Neither is an
  error.
\<close>

theorem cosineSim_unequal_length_counterexample:
  "length [Num 1] \<noteq> length [Num 1, Num 0]
 \<and> cosineSim [Num 1] [Num 1, Num 0] = Num 1
 \<and> cosineSim [Num 1] [Num 1, Num 0] = cosineSim [Num 1] [Num 1]
 \<and> cosineSim [Num 1, Num 0] [Num 1] = NaN"
  by (simp add: cosineSim_1_10 cosineSim_1_1 cosineSim_10_1)

text \<open>
  C7, as amended. For every vector \<open>v\<close> of at most \<open>2 ^ 20\<close> finite numbers of magnitude
  at most \<open>2 ^ 500\<close>, at least one of them of magnitude \<open>2 ^ -500\<close> or more, and more
  generally for every \<open>v\<close> whose squared norm as the code computes it, \<open>dot(v, v)\<close>, is a
  finite double between \<open>2 ^ -1021\<close> and \<open>2 ^ 1022\<close>, the value of \<open>similarity(v, v)\<close> is
  a finite double within \<open>2 ^ -50\<close> of 1; it need not be 1. \<open>similarity(v, z) = 0\<close> and
  \<open>similarity(z, v) = 0\<close> for every vector \<open>z\<close> of zeros, and the result is 0 whenever the
  computed norm of an argument is zero. For vectors of equal length \<open>similarity(a, b)\<close> and
  \<open>similarity(b, a)\<close> are the same value, NaN in both orders when it is NaN in one.
\<close>

theorem similarity_laws:
  "(length v \<le> 2 ^ 20 \<and> (\<forall>x\<in>set v. \<exists>r. x = Num r \<and> \<bar>r\<bar> \<le> 2 ^ 500) \<and>
    (\<exists>x\<in>set v. \<exists>r. x = Num r \<and> 1 / 2 ^ 500 \<le> \<bar>r\<bar>) \<longrightarrow>
      (\<exists>r. cosineSim v v = Num r \<and> \<bar>r - 1\<bar> \<le> 1 / 2 ^ 50))
 \<and> (dot v v = Num d \<and> 1 / 2 ^ 1021 \<le> d \<and> d \<le> 2 ^ 1022 \<longrightarrow>
      (\<exists>r. cosineSim v v = Num r \<and> \<bar>r - 1\<bar> \<le> 1 / 2 ^ 50))
 \<and> ((\<forall>x\<in>set z. x = Num 0) \<longrightarrow> cosineSim v z = Num 0 \<and> cosineSim z v = Num 0)
 \<and> (norm' a = Num 0 \<or> norm' b = Num 0 \<longrightarrow> cosineSim a b = Num 0)
 \<and> (length a = length b \<longrightarrow> cosineSim a b = cosineSim b a)"
proof (intro conjI impI)
  assume "length v \<le> 2 ^ 20 \<and> (\<forall>x\<in>set v. \<exists>r. x = Num r \<and> \<bar>r\<bar> \<le> 2 ^ 500) \<and>
    (\<exists>x\<in>set v. \<exists>r. x = Num r \<and> 1 / 2 ^ 500 \<le> \<bar>r\<bar>)"
  then show "\<exists>r. cosineSim v v = Num r \<and> \<bar>r - 1\<bar> \<le> 1 / 2 ^ 50"
    by (intro cosineSim_self_moderate) blast+
next
  assume "dot v v = Num d \<and> 1 / 2 ^ 1021 \<le> d \<and> d \<le> 2 ^ 1022"
  then show "\<exists>r. cosineSim v v = Num r \<and> \<bar>r - 1\<bar> \<le> 1 / 2 ^ 50"
    by (intro cosineSim_self [of v d]) simp_all
next
  assume z: "\<forall>x\<in>set z. x = Num 0"
  show "cosineSim v z = Num 0" "cosineSim z v = Num 0"
    using z by (rule cosineSim_zero)+
next
  assume "norm' a = Num 0 \<or> norm' b = Num 0"
  then show "cosineSim a b = Num 0"
    by (simp add: cosineSim_def Let_def)
next
  assume l: "length a = length b"
  show "cosineSim a b = cosineSim b a"
    using l by (rule cosineSim_commute)
qed

text \<open>Witness for C7: the vectors \<open>[1, 1]\<close>, \<open>[3, 0]\<close>, \<open>[0, 0]\<close>, \<open>[1, 2]\<close> and
  \<open>[3, 4]\<close>.\<close>

theorem similarity_laws_witness:
  "(\<exists>r. cosineSim [Num 3, Num 0] [Num 3, Num 0] = Num r \<and> \<bar>r - 1\<bar> \<le> 1 / 2 ^ 50)
 \<and> (\<exists>r. cosineSim [Num 1, Num 1] [Num 1, Num 1] = Num r \<and> \<bar>r - 1\<bar> \<le> 1 / 2 ^ 50)
 \<and> cosineSim [Num 1, Num 1] [Num 0, Num 0] = Num 0
 \<and> cosineSim [Num 0, Num 0] [Num 1, Num 1] = Num 0
 \<and> cosineSim [Num 1, Num 2] [Num 3, Num 4] = cosineSim [Num 3, Num 4] [Num 1, Num 2]"
proof -
  let ?v = "[Num 1, Num 1]" and ?z = "[Num 0, Num 0]" and ?u = "[Num 3, Num 0]"
  have 0: "length ?u \<le> 2 ^ 20 \<and> (\<forall>x\<in>set ?u. \<exists>r. x = Num r \<and> \<bar>r\<bar> \<le> 2 ^ 500) \<and>
    (\<exists>x\<in>set ?u. \<exists>r. x = Num r \<and> 1 / 2 ^ 500 \<le> \<bar>r\<bar>)"
    by simp
  have 1: "dot ?v ?v = Num 2 \<and> 1 / 2 ^ 1021 \<le> (2::real) \<and> (2::real) \<le> 2 ^ 1022"
    by (simp add: dot_11)
  have 2: "\<forall>x\<in>set ?z. x = Num 0" by simp
  have 3: "norm' ?z = Num 0 \<or> norm' ?v = Num 0"
    by (simp add: norm'_def dot_def fl_0)
  have 4: "length [Num 1, Num 2] = length [Num 3, Num 4]" by simp
  note laws = similarity_laws [of ?v 2 ?z "[Num 1, Num 2]" "[Num 3, Num 4]"]
  note zero = similarity_laws [of ?v 2 ?z ?z ?v]
  note moderate = similarity_laws [of ?u 2 ?z ?z ?v]
  have M: "\<exists>r. cosineSim ?u ?u = Num r \<and> \<bar>r - 1\<bar> \<le> 1 / 2 ^ 50"
    by (rule moderate [THEN conjunct1, THEN mp, OF 0])
  have A: "\<exists>r. cosineSim ?v ?v = Num r \<and> \<bar>r - 1\<bar> \<le> 1 / 2 ^ 50"
    by (rule laws [THEN conjunct2, THEN conjunct1, THEN mp, OF 1])
  have B: "cosineSim ?v ?z = Num 0"
    using laws [THEN conjunct2, THEN conjunct2, THEN conjunct1, THEN mp, OF 2] by simp
  have C: "cosineSim ?z ?v = Num 0"
    by (rule zero [THEN conjunct2, THEN conjunct2, THEN conjunct2, THEN conjunct1, THEN mp, OF 3])
  have D: "cosineSim [Num 1, Num 2] [Num 3, Num 4] = cosineSim [Num 3, Num 4] [Num 1, Num 2]"
    by (rule laws [THEN conjunct2, THEN conjunct2, THEN conjunct2, THEN conjunct2, THEN mp, OF 4])
  from M A B C D show ?thesis by blast
qed

text \<open>
  Counterexample to C7 as stated. For \<open>v = [1, 1]\<close> the doubles are \<open>dot(v, v) = 2\<close>,
  \<open>norm(v) = 6369051672525773 / 2 ^ 52\<close>, \<open>norm(v) * norm(v) = 4503599627370497 / 2 ^ 51\<close>
  (that is \<open>2 + 1 / 2 ^ 51\<close>), and the quotient \<open>1 - 1 / 2 ^ 52\<close>, printed
  \<open>0.9999999999999998\<close>: the similarity of a non-zero vector with itself is not 1. For
  \<open>v = [2 ^ -600]\<close> the square underflows to zero, the norm is zero and the similarity is
  0; for \<open>v = [2 ^ 600]\<close> the square overflows and the similarity is NaN.
\<close>

theorem similarity_counterexample:
  "cosineSim [Num 1, Num 1] [Num 1, Num 1] = Num (1 - 1 / 2 ^ 52)
 \<and> cosineSim [Num 1, Num 1] [Num 1, Num 1] \<noteq> Num 1
 \<and> cosineSim [Num (1 / 2 ^ 600)] [Num (1 / 2 ^ 600)] = Num 0
 \<and> cosineSim [Num (2 ^ 600)] [Num (2 ^ 600)] = NaN"
proof -
  have "cosineSim [Num 1, Num 1] [Num 1, Num 1] = Num (1 - 1 / 2 ^ 52)"
    using cosineSim_11 by simp
  moreover from this have "cosineSim [Num 1, Num 1] [Num 1, Num 1] \<noteq> Num 1"
    by simp
  ultimately show ?thesis
    using cosineSim_tiny cosineSim_huge by blast
qed

end
